theory Spec2Isabelle
  imports Complex_Main "HOL-Library.Multiset"
begin

section \<open>Data model of engine.py\<close>

text \<open>
  Python exceptions that the engine can raise, as values.
\<close>

datatype error =
    ZeroDivisionError
  | ValueError
  | IndexError
  | AttributeError
  | InvalidMoveError

text \<open>
  \<^verbatim>\<open>class Node\<close>. Node objects live in a store (a list); a reference to a node is its
  index in the store, so \<^verbatim>\<open>parentNode\<close> and \<^verbatim>\<open>childNodes\<close> hold indices. \<^verbatim>\<open>None\<close> is
  \<open>None\<close>. \<^verbatim>\<open>wins\<close> starts as the integer 0 and receives \<open>+1\<close>, \<open>-1\<close> and \<open>+0.5\<close>; it is a
  real number here (all its values are multiples of one half).
\<close>

record 'm Node =
  move :: "'m option"
  parentNode :: "nat option"
  childNodes :: "nat list"
  wins :: real
  visits :: nat
  untriedMoves :: "'m list"
  playerJustMoved :: bool

text \<open>
  The \<^verbatim>\<open>chess\<close> library (python-chess) is not part of the repository. The operations of
  \<^verbatim>\<open>chess.Board\<close> and \<^verbatim>\<open>chess.Move\<close> that the engine calls are the fields of this record,
  over a type \<open>'s\<close> of positions and a type \<open>'m\<close> of moves.

  Nor is the arithmetic of Python's floats the repository's. The engine divides, multiplies
  and adds numbers and calls \<^verbatim>\<open>math.log\<close> and \<^verbatim>\<open>math.sqrt\<close>; each of these yields a
  binary64 value, which is a real number but in general not the exact result. The last
  five fields are these operations, taking their operands by value; nothing is assumed
  of them.
\<close>

record ('s, 'm) Board =
  legal_moves :: "'s \<Rightarrow> 'm list"
  turn :: "'s \<Rightarrow> bool"
  push :: "'s \<Rightarrow> 'm \<Rightarrow> 's"
  is_game_over :: "'s \<Rightarrow> bool"
  result :: "'s \<Rightarrow> string"
  is_capture :: "'s \<Rightarrow> 'm \<Rightarrow> bool"
  is_check :: "'s \<Rightarrow> bool"
  gives_check :: "'s \<Rightarrow> 'm \<Rightarrow> bool"
  is_into_check :: "'s \<Rightarrow> 'm \<Rightarrow> bool"
  is_pinned :: "'s \<Rightarrow> bool \<Rightarrow> nat \<Rightarrow> bool"
  is_castling :: "'s \<Rightarrow> 'm \<Rightarrow> bool"
  from_square :: "'m \<Rightarrow> nat"
  to_square :: "'m \<Rightarrow> nat"
  fdiv :: "real \<Rightarrow> real \<Rightarrow> real"
  fmul :: "real \<Rightarrow> real \<Rightarrow> real"
  fadd :: "real \<Rightarrow> real \<Rightarrow> real"
  flog :: "real \<Rightarrow> real"
  fsqrt :: "real \<Rightarrow> real"

text \<open>
  The heap: the node store of the running search, the board objects (a reference to a
  board is its index), and the number of random draws made so far. Randomness is an
  oracle \<open>rnd :: nat \<Rightarrow> nat\<close>: the \<open>k\<close>-th draw from a list \<open>xs\<close> is
  \<open>xs ! (rnd k mod length xs)\<close>, so every outcome of \<^verbatim>\<open>random.choice\<close> is the outcome
  under some oracle.
\<close>

record ('s, 'm) heap =
  nodes :: "'m Node list"
  boards :: "'s list"
  draws :: nat

text \<open>A raised exception carries the heap at the moment of the raise.\<close>

type_synonym ('a, 's, 'm) res = "(error \<times> ('s, 'm) heap) + ('a \<times> ('s, 'm) heap)"

section \<open>class Node\<close>

text \<open>\<^verbatim>\<open>Node.__init__(self, move, parent, state)\<close>: reads the board, keeps no reference to it.\<close>

definition Node_init :: "('s, 'm) Board \<Rightarrow> 'm option \<Rightarrow> nat option \<Rightarrow> 's \<Rightarrow> 'm Node" where
  "Node_init lib mv par s =
     \<lparr> move = mv, parentNode = par, childNodes = [], wins = 0, visits = 0,
       untriedMoves = legal_moves lib s, playerJustMoved = turn lib s \<rparr>"

text \<open>
  \<^verbatim>\<open>Node.Update(self, result)\<close>: an \<^verbatim>\<open>if/elif/elif\<close> chain with no \<^verbatim>\<open>else\<close>.
\<close>

definition Update :: "'m Node \<Rightarrow> string \<Rightarrow> 'm Node" where
  "Update n r =
     (let n1 = n\<lparr>visits := visits n + 1\<rparr> in
      if r = ''1-0'' then n1\<lparr>wins := wins n1 + 1\<rparr>
      else if r = ''0-1'' then n1\<lparr>wins := wins n1 - 1\<rparr>
      else if r = ''1/2-1/2'' then n1\<lparr>wins := wins n1 + 0.5\<rparr>
      else n1)"

text \<open>
  The sort key of \<^verbatim>\<open>UCTSelectChild\<close>:
  \<^verbatim>\<open>c.wins/c.visits + sqrt(2*log(self.visits)/c.visits)\<close>, operation by operation in the
  interpreter's float arithmetic. (For \<open>self.visits \<ge> 1\<close> the logarithm is not negative,
  so the square root has no domain error.)
\<close>

definition uct_key :: "('s, 'm) Board \<Rightarrow> 'm Node \<Rightarrow> 'm Node \<Rightarrow> real" where
  "uct_key lib self c =
     fadd lib (fdiv lib (wins c) (real (visits c)))
              (fsqrt lib (fdiv lib (fmul lib 2 (flog lib (real (visits self)))) (real (visits c))))"

text \<open>
  What evaluating the key of one child raises: \<^verbatim>\<open>c.wins/c.visits\<close> comes first
  (ZeroDivisionError), then \<^verbatim>\<open>log(self.visits)\<close> (ValueError at 0).
\<close>

definition key_error :: "'m Node \<Rightarrow> 'm Node \<Rightarrow> error option" where
  "key_error self c =
     (if visits c = 0 then Some ZeroDivisionError
      else if visits self = 0 then Some ValueError
      else None)"

fun first_error :: "('a \<Rightarrow> error option) \<Rightarrow> 'a list \<Rightarrow> error option" where
  "first_error f [] = None"
| "first_error f (x # xs) = (case f x of Some e \<Rightarrow> Some e | None \<Rightarrow> first_error f xs)"

text \<open>
  \<^verbatim>\<open>sorted(xs, key=f)[-1]\<close>: Python's sort is stable, as \<open>sort_key\<close> is; \<^verbatim>\<open>[-1]\<close> on the
  empty list raises IndexError.
\<close>

definition sorted_last :: "('a \<Rightarrow> 'k::linorder) \<Rightarrow> 'a list \<Rightarrow> error + 'a" where
  "sorted_last f xs = (case sort_key f xs of [] \<Rightarrow> Inl IndexError | y # ys \<Rightarrow> Inr (last (y # ys)))"

text \<open>\<^verbatim>\<open>Node.UCTSelectChild(self)\<close>, on the node at index \<open>self\<close> of the store.\<close>

definition UCTSelectChild :: "('s, 'm) Board \<Rightarrow> 'm Node list \<Rightarrow> nat \<Rightarrow> error + nat" where
  "UCTSelectChild lib ns self =
     (case first_error (\<lambda>c. key_error (ns ! self) (ns ! c)) (childNodes (ns ! self)) of
        Some e \<Rightarrow> Inl e
      | None \<Rightarrow> sorted_last (\<lambda>c. uct_key lib (ns ! self) (ns ! c)) (childNodes (ns ! self)))"

text \<open>
  \<^verbatim>\<open>Node.AddChild(self, m, s)\<close>: the new node is stored at the next free index;
  \<^verbatim>\<open>list.remove\<close> removes the first occurrence and raises ValueError when there is none.
\<close>

definition AddChild :: "('s, 'm) Board \<Rightarrow> 'm Node list \<Rightarrow> nat \<Rightarrow> 'm \<Rightarrow> 's \<Rightarrow> error + ('m Node list \<times> nat)" where
  "AddChild lib ns self m s =
     (let n = length ns;
          ns1 = ns @ [Node_init lib (Some m) (Some self) s]
      in if m \<notin> set (untriedMoves (ns1 ! self)) then Inl ValueError
         else
           let ns2 = ns1[self := (ns1 ! self)\<lparr>untriedMoves := remove1 m (untriedMoves (ns1 ! self))\<rparr>];
               ns3 = ns2[self := (ns2 ! self)\<lparr>childNodes := childNodes (ns2 ! self) @ [n]\<rparr>]
           in Inr (ns3, n))"

section \<open>rollout\_policy\<close>

text \<open>
  A Python dict of weights as an association list in insertion order. The comprehension
  \<^verbatim>\<open>{move: 1 for move in board.legal_moves}\<close> keeps the first occurrence of each key.
\<close>

definition dict_init :: "'k list \<Rightarrow> ('k \<times> int) list" where
  "dict_init ks = map (\<lambda>k. (k, 1)) (rev (remdups (rev ks)))"

text \<open>\<^verbatim>\<open>weights[k] += d\<close> for a key that is present.\<close>

definition dict_add :: "'k \<Rightarrow> int \<Rightarrow> ('k \<times> int) list \<Rightarrow> ('k \<times> int) list" where
  "dict_add k d w = map (\<lambda>(k', v). if k' = k then (k', v + d) else (k', v)) w"

text \<open>The squares \<^verbatim>\<open>chess.C3, G3, C6, G6, F3, F6\<close> (a1 is 0, h8 is 63).\<close>

definition piece_development_squares :: "nat list" where
  "piece_development_squares = [18, 22, 42, 46, 21, 45]"

text \<open>The sum of the adjustments that one pass of the loop body makes to \<^verbatim>\<open>weights[move]\<close>.\<close>

definition adjust_common :: "('s, 'm) Board \<Rightarrow> 's \<Rightarrow> 'm \<Rightarrow> int" where
  "adjust_common lib b m =
     (if is_capture lib b m then 10 else 0)
   + (if is_check lib b then 5 else 0)
   + (if gives_check lib b m then 5 else 0)
   + (if is_into_check lib b m then - 20 else 0)
   + (if is_pinned lib b (turn lib b) (from_square lib m) then - 5 else 0)
   + (if is_castling lib b m then 5 else 0)"

definition adjust :: "('s, 'm) Board \<Rightarrow> 's \<Rightarrow> 'm \<Rightarrow> int" where
  "adjust lib b m =
     adjust_common lib b m
   + (if to_square lib m \<in> set piece_development_squares then 3 else 0)"

text \<open>What the policy hands to the \<^verbatim>\<open>random\<close> module.\<close>

datatype 'm sampler =
    Choice "'m list"
  | Choices "'m list" "real list"

text \<open>
  \<^verbatim>\<open>rollout_policy(board)\<close>, for either engine: \<open>adj\<close> is \<open>adjust\<close> in the first engine and
  \<open>adjust_common\<close> in the second (which has no development squares).
\<close>

definition weights_of :: "(('s, 'm) Board \<Rightarrow> 's \<Rightarrow> 'm \<Rightarrow> int) \<Rightarrow> ('s, 'm) Board \<Rightarrow> 's \<Rightarrow> ('m \<times> int) list" where
  "weights_of adj lib b =
     fold (\<lambda>m w. dict_add m (adj lib b m) w) (legal_moves lib b) (dict_init (legal_moves lib b))"

definition policy :: "(('s, 'm) Board \<Rightarrow> 's \<Rightarrow> 'm \<Rightarrow> int) \<Rightarrow> ('s, 'm) Board \<Rightarrow> 's \<Rightarrow> 'm sampler" where
  "policy adj lib b =
     (let weights = weights_of adj lib b;
          moves = map fst weights;
          probabilities = map snd weights;
          total_weight = sum_list probabilities
      in if total_weight = 0 then Choice moves
         else Choices moves
                (map (\<lambda>p. fdiv lib (real_of_int p) (real_of_int total_weight)) probabilities))"

definition rollout_policy :: "('s, 'm) Board \<Rightarrow> 's \<Rightarrow> 'm sampler" where
  "rollout_policy = policy adjust"

definition rollout_policy_q :: "('s, 'm) Board \<Rightarrow> 's \<Rightarrow> 'm sampler" where
  "rollout_policy_q = policy adjust_common"

section \<open>The random module and board objects\<close>

text \<open>\<^verbatim>\<open>random.choice(xs)\<close>: IndexError on the empty list, else one element and one draw.\<close>

definition random_choice :: "(nat \<Rightarrow> nat) \<Rightarrow> ('s, 'm) heap \<Rightarrow> 'a list \<Rightarrow> ('a, 's, 'm) res" where
  "random_choice rnd h xs =
     (if xs = [] then Inl (IndexError, h)
      else Inr (xs ! (rnd (draws h) mod length xs), h\<lparr>draws := draws h + 1\<rparr>))"

text \<open>
  \<^verbatim>\<open>random.choices(xs, ps)[0]\<close>: which element the weights select is left to the oracle, so
  the model admits every element of \<open>xs\<close>. The weights that \<^verbatim>\<open>rollout_policy\<close> passes are
  quotients by their own sum and add up to 1, so the call has no total to reject.
\<close>

definition random_choices :: "(nat \<Rightarrow> nat) \<Rightarrow> ('s, 'm) heap \<Rightarrow> 'a list \<Rightarrow> real list \<Rightarrow> ('a, 's, 'm) res" where
  "random_choices rnd h xs ps =
     (if xs = [] then Inl (IndexError, h)
      else Inr (xs ! (rnd (draws h) mod length xs), h\<lparr>draws := draws h + 1\<rparr>))"

definition sample :: "(nat \<Rightarrow> nat) \<Rightarrow> ('s, 'm) heap \<Rightarrow> 'm sampler \<Rightarrow> ('m, 's, 'm) res" where
  "sample rnd h call =
     (case call of Choice xs \<Rightarrow> random_choice rnd h xs
                 | Choices xs ps \<Rightarrow> random_choices rnd h xs ps)"

text \<open>\<^verbatim>\<open>board.copy()\<close> allocates a new board object; \<^verbatim>\<open>board.push(m)\<close> mutates one in place.\<close>

definition board_copy :: "('s, 'm) heap \<Rightarrow> nat \<Rightarrow> nat \<times> ('s, 'm) heap" where
  "board_copy h r = (length (boards h), h\<lparr>boards := boards h @ [boards h ! r]\<rparr>)"

definition board_push :: "('s, 'm) Board \<Rightarrow> ('s, 'm) heap \<Rightarrow> nat \<Rightarrow> 'm \<Rightarrow> ('s, 'm) heap" where
  "board_push lib h r m = h\<lparr>boards := (boards h)[r := push lib (boards h ! r) m]\<rparr>"

section \<open>UCT\<close>

text \<open>
  The two engines of the file have the same \<^verbatim>\<open>UCT\<close> but for the line that picks the move to
  expand (\<^verbatim>\<open>random.choice(node.untriedMoves)\<close> against \<^verbatim>\<open>quantum_selection(node)\<close>) and for
  their \<^verbatim>\<open>rollout_policy\<close>. The phases below take these two as the arguments \<open>pick\<close> and
  \<open>pol\<close>.
\<close>

text \<open>
  Selection: \<^verbatim>\<open>while node.untriedMoves == [] and node.childNodes != []\<close>. \<open>node\<close> is a node
  index, \<open>st\<close> the reference of the working board. The root has \<^verbatim>\<open>move = None\<close>; pushing
  \<^verbatim>\<open>None\<close> is an AttributeError.
\<close>

partial_function (option) select_loop ::
  "('s, 'm) Board \<Rightarrow> ('s, 'm) heap \<Rightarrow> nat \<Rightarrow> nat \<Rightarrow> (nat, 's, 'm) res option" where
  "select_loop lib h node st =
     (if untriedMoves (nodes h ! node) = [] \<and> childNodes (nodes h ! node) \<noteq> [] then
        (case UCTSelectChild lib (nodes h) node of
           Inl e \<Rightarrow> Some (Inl (e, h))
         | Inr c \<Rightarrow>
            (case move (nodes h ! c) of
               None \<Rightarrow> Some (Inl (AttributeError, h))
             | Some m \<Rightarrow> select_loop lib (board_push lib h st m) c st))
      else Some (Inr (node, h)))"

text \<open>The first engine's pick: \<^verbatim>\<open>random.choice(node.untriedMoves)\<close>.\<close>

definition pick_plain :: "(nat \<Rightarrow> nat) \<Rightarrow> ('s, 'm) heap \<Rightarrow> nat \<Rightarrow> ('m, 's, 'm) res" where
  "pick_plain rnd h node = random_choice rnd h (untriedMoves (nodes h ! node))"

text \<open>
  \<^verbatim>\<open>grover_search(moves)\<close>: its second statement is \<^verbatim>\<open>int(sqrt(n).bit_length())\<close>; \<^verbatim>\<open>sqrt\<close>
  returns a float, which has no \<^verbatim>\<open>bit_length\<close>, so the call raises AttributeError before
  any circuit is built.
\<close>

definition grover_search :: "(nat \<Rightarrow> nat) \<Rightarrow> ('s, 'm) heap \<Rightarrow> 'm option list \<Rightarrow> ('m, 's, 'm) res" where
  "grover_search rnd h moves = Inl (AttributeError, h)"

text \<open>
  \<^verbatim>\<open>quantum_selection(node)\<close>, with the search routine of its \<^verbatim>\<open>else\<close> branch as the
  argument \<open>grover\<close>.
\<close>

definition quantum_selection ::
  "((nat \<Rightarrow> nat) \<Rightarrow> ('s, 'm) heap \<Rightarrow> 'm option list \<Rightarrow> ('m, 's, 'm) res)
   \<Rightarrow> (nat \<Rightarrow> nat) \<Rightarrow> ('s, 'm) heap \<Rightarrow> nat \<Rightarrow> ('m, 's, 'm) res" where
  "quantum_selection grover rnd h node =
     (if untriedMoves (nodes h ! node) \<noteq> [] then random_choice rnd h (untriedMoves (nodes h ! node))
      else grover rnd h (map (\<lambda>c. move (nodes h ! c)) (childNodes (nodes h ! node))))"

text \<open>Expansion: \<^verbatim>\<open>if node.untriedMoves != []: m = ...; state.push(m); node = node.AddChild(m, state)\<close>.\<close>

definition expand ::
  "((nat \<Rightarrow> nat) \<Rightarrow> ('s, 'm) heap \<Rightarrow> nat \<Rightarrow> ('m, 's, 'm) res)
   \<Rightarrow> (nat \<Rightarrow> nat) \<Rightarrow> ('s, 'm) Board \<Rightarrow> ('s, 'm) heap \<Rightarrow> nat \<Rightarrow> nat \<Rightarrow> (nat, 's, 'm) res" where
  "expand pick rnd lib h node st =
     (if untriedMoves (nodes h ! node) \<noteq> [] then
        (case pick rnd h node of
           Inl e \<Rightarrow> Inl e
         | Inr (m, h1) \<Rightarrow>
            (let h2 = board_push lib h1 st m in
             case AddChild lib (nodes h2) node m (boards h2 ! st) of
               Inl e \<Rightarrow> Inl (e, h2)
             | Inr (ns, n) \<Rightarrow> Inr (n, h2\<lparr>nodes := ns\<rparr>)))
      else Inr (node, h))"

text \<open>Simulation: \<^verbatim>\<open>while not state.is_game_over(): state.push(rollout_policy(state))\<close>.\<close>

partial_function (option) rollout_loop ::
  "(('s, 'm) Board \<Rightarrow> 's \<Rightarrow> 'm sampler) \<Rightarrow> (nat \<Rightarrow> nat) \<Rightarrow> ('s, 'm) Board
   \<Rightarrow> ('s, 'm) heap \<Rightarrow> nat \<Rightarrow> (unit, 's, 'm) res option" where
  "rollout_loop pol rnd lib h st =
     (if \<not> is_game_over lib (boards h ! st) then
        (case sample rnd h (pol lib (boards h ! st)) of
           Inl e \<Rightarrow> Some (Inl e)
         | Inr (m, h1) \<Rightarrow> rollout_loop pol rnd lib (board_push lib h1 st m) st)
      else Some (Inr ((), h)))"

text \<open>Backpropagation: \<^verbatim>\<open>while node != None: node.Update(state.result()); node = node.parentNode\<close>.\<close>

partial_function (option) backprop ::
  "('s, 'm) Board \<Rightarrow> ('s, 'm) heap \<Rightarrow> nat option \<Rightarrow> nat \<Rightarrow> ('s, 'm) heap option" where
  "backprop lib h node st =
     (case node of
        None \<Rightarrow> Some h
      | Some i \<Rightarrow>
          backprop lib
            (h\<lparr>nodes := (nodes h)[i := Update (nodes h ! i) (result lib (boards h ! st))]\<rparr>)
            (parentNode (nodes h ! i)) st)"

text \<open>
  One pass of the body of \<^verbatim>\<open>for _ in range(itermax)\<close>. The root node is at index 0 of the
  node store; \<open>rootstate\<close> is the reference of the caller's board.
\<close>

definition iteration ::
  "((nat \<Rightarrow> nat) \<Rightarrow> ('s, 'm) heap \<Rightarrow> nat \<Rightarrow> ('m, 's, 'm) res)
   \<Rightarrow> (('s, 'm) Board \<Rightarrow> 's \<Rightarrow> 'm sampler) \<Rightarrow> (nat \<Rightarrow> nat) \<Rightarrow> ('s, 'm) Board
   \<Rightarrow> nat \<Rightarrow> ('s, 'm) heap \<Rightarrow> (unit, 's, 'm) res option" where
  "iteration pick pol rnd lib rootstate h =
     (case board_copy h rootstate of (st, h0) \<Rightarrow>
      case select_loop lib h0 0 st of
        None \<Rightarrow> None
      | Some (Inl e) \<Rightarrow> Some (Inl e)
      | Some (Inr (node, h1)) \<Rightarrow>
         (case expand pick rnd lib h1 node st of
            Inl e \<Rightarrow> Some (Inl e)
          | Inr (node2, h2) \<Rightarrow>
             (case rollout_loop pol rnd lib h2 st of
                None \<Rightarrow> None
              | Some (Inl e) \<Rightarrow> Some (Inl e)
              | Some (Inr (u, h3)) \<Rightarrow>
                 (case backprop lib h3 (Some node2) st of
                    None \<Rightarrow> None
                  | Some h4 \<Rightarrow> Some (Inr ((), h4))))))"

fun UCT_loop ::
  "((nat \<Rightarrow> nat) \<Rightarrow> ('s, 'm) heap \<Rightarrow> nat \<Rightarrow> ('m, 's, 'm) res)
   \<Rightarrow> (('s, 'm) Board \<Rightarrow> 's \<Rightarrow> 'm sampler) \<Rightarrow> (nat \<Rightarrow> nat) \<Rightarrow> ('s, 'm) Board
   \<Rightarrow> nat \<Rightarrow> nat \<Rightarrow> ('s, 'm) heap \<Rightarrow> (unit, 's, 'm) res option" where
  "UCT_loop pick pol rnd lib rootstate 0 h = Some (Inr ((), h))"
| "UCT_loop pick pol rnd lib rootstate (Suc k) h =
     (case iteration pick pol rnd lib rootstate h of
        None \<Rightarrow> None
      | Some (Inl e) \<Rightarrow> Some (Inl e)
      | Some (Inr (u, h')) \<Rightarrow> UCT_loop pick pol rnd lib rootstate k h')"

text \<open>\<^verbatim>\<open>rootnode = Node(state=rootstate)\<close>: a fresh node store for every search.\<close>

definition root_heap :: "('s, 'm) Board \<Rightarrow> ('s, 'm) heap \<Rightarrow> nat \<Rightarrow> ('s, 'm) heap" where
  "root_heap lib h rootstate = h\<lparr>nodes := [Node_init lib None None (boards h ! rootstate)]\<rparr>"

text \<open>
  \<^verbatim>\<open>UCT(rootstate, itermax)\<close>; the value is \<open>None\<close> when a loop never ends, an exception
  with the heap it left, or the returned \<^verbatim>\<open>.move\<close> field with the final heap (the tree
  is still in it, for the statements about the tree).
\<close>

definition UCT_gen ::
  "((nat \<Rightarrow> nat) \<Rightarrow> ('s, 'm) heap \<Rightarrow> nat \<Rightarrow> ('m, 's, 'm) res)
   \<Rightarrow> (('s, 'm) Board \<Rightarrow> 's \<Rightarrow> 'm sampler) \<Rightarrow> (nat \<Rightarrow> nat) \<Rightarrow> ('s, 'm) Board
   \<Rightarrow> ('s, 'm) heap \<Rightarrow> nat \<Rightarrow> nat \<Rightarrow> ('m option, 's, 'm) res option" where
  "UCT_gen pick pol rnd lib h rootstate itermax =
     (case UCT_loop pick pol rnd lib rootstate itermax (root_heap lib h rootstate) of
        None \<Rightarrow> None
      | Some (Inl e) \<Rightarrow> Some (Inl e)
      | Some (Inr (u, h1)) \<Rightarrow>
         (case sorted_last (\<lambda>c. visits (nodes h1 ! c)) (childNodes (nodes h1 ! 0)) of
            Inl e \<Rightarrow> Some (Inl (e, h1))
          | Inr c \<Rightarrow> Some (Inr (move (nodes h1 ! c), h1))))"

definition UCT ::
  "(nat \<Rightarrow> nat) \<Rightarrow> ('s, 'm) Board \<Rightarrow> ('s, 'm) heap \<Rightarrow> nat \<Rightarrow> nat \<Rightarrow> ('m option, 's, 'm) res option" where
  "UCT = UCT_gen pick_plain rollout_policy"

text \<open>\<^verbatim>\<open>UCT\<close> of the second ("quantum enhanced") engine.\<close>

definition UCT_q ::
  "(nat \<Rightarrow> nat) \<Rightarrow> ('s, 'm) Board \<Rightarrow> ('s, 'm) heap \<Rightarrow> nat \<Rightarrow> nat \<Rightarrow> ('m option, 's, 'm) res option" where
  "UCT_q = UCT_gen (quantum_selection grover_search) rollout_policy_q"

text \<open>
  The position a node stands for: the root position with the moves on the path from the
  root to the node played. It is the board that \<^verbatim>\<open>AddChild\<close> received when it made the node.
\<close>

inductive node_state :: "('s, 'm) Board \<Rightarrow> 's \<Rightarrow> 'm Node list \<Rightarrow> nat \<Rightarrow> 's \<Rightarrow> bool"
  for lib :: "('s, 'm) Board" and root :: 's and ns :: "'m Node list" where
  at_root: "node_state lib root ns 0 root"
| at_child: "node_state lib root ns p s \<Longrightarrow> c < length ns \<Longrightarrow> parentNode (ns ! c) = Some p
             \<Longrightarrow> move (ns ! c) = Some m \<Longrightarrow> node_state lib root ns c (push lib s m)"

section \<open>Opening book and game loop\<close>

text \<open>
  The dict literal \<^verbatim>\<open>OPENINGS\<close> of the first engine, in source order. A key written twice
  keeps its last value, so a lookup reads the reversed list.
\<close>

definition OPENINGS :: "(string \<times> string) list" where
  "OPENINGS =
   [(''e4 e5'', ''Nf3''),
    (''e4 e5 Nf3 Nc6'', ''Bb5''),
    (''e4 e5 Nf3 Nc6 Bb5 Nf6'', ''O-O''),
    (''e4 e5 Nf3 Nc6 Bb5 Nf6 O-O Nxe4'', ''d4''),
    (''e4 e5 Nf3 Nc6 Bb5 Nf6 O-O Nxe4 d4 Nd6'', ''Bxc6''),
    (''e4 e5 Nf3 Nc6 Bb5 Nf6 O-O Nxe4 d4 Nd6 Bxc6 dxc6'', ''dxe5''),
    (''e4 e5 Nf3 Nc6 Bb5 Nf6 O-O Nxe4 d4 Nd6 Bxc6 dxc6 dxe5 Nf5'', ''Qxd8+''),
    (''e4 e5 Nf3 Nc6 Bb5 Nf6 O-O Nxe4 d4 Nd6 Bxc6 dxc6 dxe5 Nf5 Qxd8+ Kxd8'', ''Nc3''),
    (''e4 c5'', ''Nf3''),
    (''e4 c5 Nf3 Nc6'', ''d4''),
    (''e4 c5 Nf3 Nc6 d4 cxd4'', ''Nxd4''),
    (''e4 c5 Nf3 Nc6 d4 cxd4 Nxd4 g6'', ''Nc3''),
    (''e4 c5 Nf3 Nc6 d4 cxd4 Nxd4 g6 Nc3 Bg7'', ''Be3''),
    (''e4 c5 Nf3 Nc6 d4 cxd4 Nxd4 g6 Nc3 Bg7 Be3 Nf6'', ''Bc4''),
    (''e4 c5'', ''Nf3''),
    (''e4 c5 Nf3 Nc6'', ''d4''),
    (''e4 c5 Nf3 Nc6 d4 cxd4'', ''Nxd4''),
    (''e4 c5 Nf3 Nc6 d4 cxd4 Nxd4 g6'', ''Nc3''),
    (''e4 c5 Nf3 Nc6 d4 cxd4 Nxd4 Bg7'', ''Be3''),
    (''e4 c5 Nf3 Nc6 d4 cxd4 Nxd4 Bg7 Be3 Nf6'', ''f3'')]"

definition openings_get :: "string \<Rightarrow> string option" where
  "openings_get k = map_of (rev OPENINGS) k"

text \<open>\<^verbatim>\<open>" ".join(xs)\<close>.\<close>

fun join_space :: "string list \<Rightarrow> string" where
  "join_space [] = []"
| "join_space [x] = x"
| "join_space (x # y # ys) = x @ '' '' @ join_space (y # ys)"

text \<open>
  \<^verbatim>\<open>get_opening_move(board)\<close> reads only \<^verbatim>\<open>board.move_stack\<close>. \<open>str_move\<close> is \<^verbatim>\<open>str\<close> on a
  \<^verbatim>\<open>chess.Move\<close> and \<open>from_uci\<close> is \<^verbatim>\<open>chess.Move.from_uci\<close>, both of the library.
\<close>

definition get_opening_move ::
  "('m \<Rightarrow> string) \<Rightarrow> (string \<Rightarrow> error + 'm) \<Rightarrow> 'm list \<Rightarrow> error + 'm option" where
  "get_opening_move str_move from_uci move_stack =
     (let board_str = join_space (map str_move move_stack) in
      case openings_get board_str of
        Some v \<Rightarrow> (case from_uci v of Inl e \<Rightarrow> Inl e | Inr m \<Rightarrow> Inr (Some m))
      | None \<Rightarrow> Inr None)"

text \<open>
  The choice of a move in the body of \<^verbatim>\<open>play_game\<close>'s loop: the book move, or the call
  \<^verbatim>\<open>UCT(board, 50)\<close>, recorded with its iteration budget.
\<close>

datatype 'm decision = Book 'm | Search nat

definition play_game_choice ::
  "('m \<Rightarrow> string) \<Rightarrow> (string \<Rightarrow> error + 'm) \<Rightarrow> 'm list \<Rightarrow> error + 'm decision" where
  "play_game_choice str_move from_uci move_stack =
     (case get_opening_move str_move from_uci move_stack of
        Inl e \<Rightarrow> Inl e
      | Inr (Some m) \<Rightarrow> Inr (Book m)
      | Inr None \<Rightarrow> Inr (Search 50))"

text \<open>
  python-chess: a \<^verbatim>\<open>chess.Move\<close> has a from-square, a to-square, an optional promotion
  piece and an optional dropped piece (piece types are 1 to 6, squares 0 to 63);
  \<^verbatim>\<open>str(move)\<close> is \<^verbatim>\<open>move.uci()\<close>; \<^verbatim>\<open>Move.from_uci\<close> accepts \<^verbatim>\<open>"0000"\<close>, a drop such as
  \<^verbatim>\<open>"Q@e4"\<close> and strings of four or five characters that start with two square names, and
  raises InvalidMoveError on everything else.
\<close>

record Move =
  mv_from :: nat
  mv_to :: nat
  mv_promotion :: "nat option"
  mv_drop :: "nat option"

text \<open>\<^verbatim>\<open>SQUARE_NAMES[sq]\<close>, and \<^verbatim>\<open>PIECE_SYMBOLS\<close> without its entry \<^verbatim>\<open>None\<close> at index 0.\<close>

definition square_name :: "nat \<Rightarrow> string" where
  "square_name sq = [''abcdefgh'' ! (sq mod 8), ''12345678'' ! (sq div 8)]"

definition piece_symbols :: string where
  "piece_symbols = ''pnbrqk''"

text \<open>Python's truth value of an optional piece type: \<^verbatim>\<open>None\<close> and 0 are false.\<close>

definition truthy :: "nat option \<Rightarrow> bool" where
  "truthy x = (case x of None \<Rightarrow> False | Some p \<Rightarrow> p \<noteq> 0)"

text \<open>\<^verbatim>\<open>str.upper\<close> and \<^verbatim>\<open>str.lower\<close> on one ASCII character.\<close>

definition char_upper :: "char \<Rightarrow> char" where
  "char_upper c =
     (case map_of (zip ''abcdefghijklmnopqrstuvwxyz'' ''ABCDEFGHIJKLMNOPQRSTUVWXYZ'') c of
        Some u \<Rightarrow> u | None \<Rightarrow> c)"

definition char_lower :: "char \<Rightarrow> char" where
  "char_lower c =
     (case map_of (zip ''ABCDEFGHIJKLMNOPQRSTUVWXYZ'' ''abcdefghijklmnopqrstuvwxyz'') c of
        Some l \<Rightarrow> l | None \<Rightarrow> c)"

text \<open>\<^verbatim>\<open>Move.uci(self)\<close>.\<close>

definition move_uci :: "Move \<Rightarrow> string" where
  "move_uci m =
     (if truthy (mv_drop m) then
        [char_upper (piece_symbols ! (the (mv_drop m) - 1)), CHR ''@''] @ square_name (mv_to m)
      else if truthy (mv_promotion m) then
        square_name (mv_from m) @ square_name (mv_to m) @ [piece_symbols ! (the (mv_promotion m) - 1)]
      else if mv_from m \<noteq> 0 \<or> mv_to m \<noteq> 0 then
        square_name (mv_from m) @ square_name (mv_to m)
      else ''0000'')"

text \<open>\<^verbatim>\<open>SQUARE_NAMES.index(s)\<close> and \<^verbatim>\<open>PIECE_SYMBOLS.index(c)\<close>; \<open>None\<close> is their ValueError.\<close>

definition square_index :: "string \<Rightarrow> nat option" where
  "square_index s = (case filter (\<lambda>sq. square_name sq = s) [0..<64] of [] \<Rightarrow> None | sq # _ \<Rightarrow> Some sq)"

definition piece_index :: "char \<Rightarrow> nat option" where
  "piece_index c = (case filter (\<lambda>i. piece_symbols ! i = c) [0..<6] of [] \<Rightarrow> None | i # _ \<Rightarrow> Some (i + 1))"

text \<open>\<^verbatim>\<open>Move.from_uci(uci)\<close>.\<close>

definition move_from_uci :: "string \<Rightarrow> error + Move" where
  "move_from_uci u =
     (if u = ''0000'' then Inr \<lparr>mv_from = 0, mv_to = 0, mv_promotion = None, mv_drop = None\<rparr>
      else if length u = 4 \<and> u ! 1 = CHR ''@'' then
        (case (piece_index (char_lower (u ! 0)), square_index (drop 2 u)) of
           (Some d, Some sq) \<Rightarrow> Inr \<lparr>mv_from = sq, mv_to = sq, mv_promotion = None, mv_drop = Some d\<rparr>
         | _ \<Rightarrow> Inl InvalidMoveError)
      else if 4 \<le> length u \<and> length u \<le> 5 then
        (case (square_index (take 2 u), square_index (take 2 (drop 2 u))) of
           (Some f, Some t) \<Rightarrow>
             (if length u = 5 then
                (case piece_index (u ! 4) of
                   None \<Rightarrow> Inl InvalidMoveError
                 | Some p \<Rightarrow> if f = t then Inl InvalidMoveError
                             else Inr \<lparr>mv_from = f, mv_to = t, mv_promotion = Some p, mv_drop = None\<rparr>)
              else if f = t then Inl InvalidMoveError
              else Inr \<lparr>mv_from = f, mv_to = t, mv_promotion = None, mv_drop = None\<rparr>)
         | _ \<Rightarrow> Inl InvalidMoveError)
      else Inl InvalidMoveError)"

section \<open>Small concrete games\<close>

text \<open>
  A family of boards for evaluating the engine on concrete inputs: a position is a
  number, a move is a number (also its own from- and to-square), playing a move leads to
  the position of that number, and the game is over where there is no legal move. Their
  arithmetic is exact.
\<close>

definition toy :: "(nat \<Rightarrow> nat list) \<Rightarrow> (nat \<Rightarrow> string) \<Rightarrow> (nat \<Rightarrow> bool) \<Rightarrow> (nat, nat) Board" where
  "toy legal res pinned =
     \<lparr> legal_moves = legal, turn = (\<lambda>s. True), push = (\<lambda>s m. m),
       is_game_over = (\<lambda>s. legal s = []), result = res,
       is_capture = (\<lambda>s m. False), is_check = (\<lambda>s. False), gives_check = (\<lambda>s m. False),
       is_into_check = (\<lambda>s m. False), is_pinned = (\<lambda>s t sq. pinned sq),
       is_castling = (\<lambda>s m. False), from_square = (\<lambda>m. m), to_square = (\<lambda>m. m),
       fdiv = (\<lambda>x y. x / y), fmul = (\<lambda>x y. x * y), fadd = (\<lambda>x y. x + y),
       flog = ln, fsqrt = sqrt \<rparr>"

text \<open>Position 0 has the moves 7 and 9; 7 wins for White, 9 for Black.\<close>

definition two_moves :: "(nat, nat) Board" where
  "two_moves = toy (\<lambda>s. if s = 0 then [7, 9] else [])
                   (\<lambda>s. if s = 7 then ''1-0'' else if s = 9 then ''0-1'' else ''*'')
                   (\<lambda>sq. False)"

text \<open>Position 0 has the one move 7, after which the library reports the result \<^verbatim>\<open>*\<close>.\<close>

definition star_game :: "(nat, nat) Board" where
  "star_game = toy (\<lambda>s. if s = 0 then [7] else []) (\<lambda>s. ''*'') (\<lambda>sq. False)"

definition heap0 :: "(nat, nat) heap" where
  "heap0 = \<lparr> nodes = [], boards = [0], draws = 0 \<rparr>"

text \<open>A root visited twice whose two children were each visited once, with equal scores.\<close>

definition tied_tree :: "nat Node list" where
  "tied_tree =
     [\<lparr>move = None, parentNode = None, childNodes = [1, 2], wins = 2, visits = 2,
        untriedMoves = [], playerJustMoved = True\<rparr>,
      \<lparr>move = Some 7, parentNode = Some 0, childNodes = [], wins = 1, visits = 1,
        untriedMoves = [], playerJustMoved = True\<rparr>,
      \<lparr>move = Some 9, parentNode = Some 0, childNodes = [], wins = 1, visits = 1,
        untriedMoves = [], playerJustMoved = True\<rparr>]"


text \<open>
  The chess position \<^verbatim>\<open>4r2k/8/8/8/8/8/4R3/4K3 w - - 0 1\<close> (White: king e1, rook e2; Black:
  rook e8, king h8), as position 0 of a library that answers on it as python-chess does.
  The white rook is pinned on the e-file. The legal moves, in the order in which
  python-chess generates them, are the rook's Rxe8+, Re7, Re6, Re5, Re4, Re3 and the
  king's Kf2, Kd2, Kf1, Kd1 (e1 is square 4, e2 12, e8 60). Only Rxe8+ captures and only
  it gives check; White is not in check; \<^verbatim>\<open>chess.WHITE\<close> is \<^verbatim>\<open>True\<close>. The float division is
  the argument \<open>fd\<close>.
\<close>

definition mk_move :: "nat \<Rightarrow> nat \<Rightarrow> Move" where
  "mk_move f t = \<lparr>mv_from = f, mv_to = t, mv_promotion = None, mv_drop = None\<rparr>"

definition pinned_rook :: "(real \<Rightarrow> real \<Rightarrow> real) \<Rightarrow> (nat, Move) Board" where
  "pinned_rook fd =
     \<lparr> legal_moves = (\<lambda>s. if s = 0
          then [mk_move 12 60, mk_move 12 52, mk_move 12 44, mk_move 12 36, mk_move 12 28, mk_move 12 20,
                mk_move 4 13, mk_move 4 11, mk_move 4 5, mk_move 4 3]
          else []),
       turn = (\<lambda>s. True), push = (\<lambda>s m. Suc s),
       is_game_over = (\<lambda>s. s \<noteq> 0), result = (\<lambda>s. ''*''),
       is_capture = (\<lambda>s m. s = 0 \<and> mv_to m = 60), is_check = (\<lambda>s. False),
       gives_check = (\<lambda>s m. s = 0 \<and> mv_to m = 60),
       is_into_check = (\<lambda>s m. False),
       is_pinned = (\<lambda>s t sq. s = 0 \<and> t \<and> sq = 12),
       is_castling = (\<lambda>s m. False), from_square = mv_from, to_square = mv_to,
       fdiv = fd, fmul = (\<lambda>x y. x * y), fadd = (\<lambda>x y. x + y), flog = ln, fsqrt = sqrt \<rparr>"

text \<open>The board after 1. e4 e5: the moves e2e4 and e7e5 (e2 is square 12, e4 28, e7 52, e5 36).\<close>

definition after_e4_e5 :: "Move list" where
  "after_e4_e5 = [\<lparr>mv_from = 12, mv_to = 28, mv_promotion = None, mv_drop = None\<rparr>,
                  \<lparr>mv_from = 52, mv_to = 36, mv_promotion = None, mv_drop = None\<rparr>]"

section \<open>Predicates on the heap\<close>

text \<open>The heap that an outcome leaves, be it an exception or a value.\<close>

fun final_heap :: "('a, 's, 'm) res \<Rightarrow> ('s, 'm) heap" where
  "final_heap (Inl (e, h)) = h"
| "final_heap (Inr (a, h)) = h"

text \<open>
  \<open>kept L h h'\<close>: no board was allocated or freed between \<open>h\<close> and \<open>h'\<close>, and the first
  \<open>L\<close> boards are the same.
\<close>

definition kept :: "nat \<Rightarrow> ('s, 'm) heap \<Rightarrow> ('s, 'm) heap \<Rightarrow> bool" where
  "kept L h h' \<longleftrightarrow> length (boards h') = length (boards h) \<and> take L (boards h') = take L (boards h)"

text \<open>
  The shape of the node store of a search: the root is node 0 and has no parent, every
  other node has a parent of smaller index, and every child listed by a node is a node of
  the store whose parent is that node.
\<close>

definition parents_ok :: "'m Node list \<Rightarrow> bool" where
  "parents_ok ns \<longleftrightarrow>
     ns \<noteq> [] \<and> parentNode (ns ! 0) = None
   \<and> (\<forall>c<length ns. 0 < c \<longrightarrow> (\<exists>p<c. parentNode (ns ! c) = Some p))"

definition children_ok :: "'m Node list \<Rightarrow> bool" where
  "children_ok ns \<longleftrightarrow>
     (\<forall>i<length ns. \<forall>c\<in>set (childNodes (ns ! i)). c < length ns \<and> parentNode (ns ! c) = Some i)"

text \<open>The score of a node is at most its visit count in absolute value.\<close>

definition score_ok :: "'m Node list \<Rightarrow> bool" where
  "score_ok ns \<longleftrightarrow> (\<forall>i<length ns. \<bar>wins (ns ! i)\<bar> \<le> real (visits (ns ! i)))"

text \<open>
  The untried moves of a node together with the moves of its children are, as a multiset,
  the legal moves of the position the node stands for.
\<close>

definition moves_ok :: "('s, 'm) Board \<Rightarrow> 's \<Rightarrow> 'm Node list \<Rightarrow> bool" where
  "moves_ok lib rootpos ns \<longleftrightarrow>
     (\<forall>i<length ns. \<exists>s. node_state lib rootpos ns i s
        \<and> mset (map Some (untriedMoves (ns ! i))) + mset (map (\<lambda>c. move (ns ! c)) (childNodes (ns ! i)))
          = mset (map Some (legal_moves lib s)))"

text \<open>Two node stores that differ in scores and visit counts only.\<close>

definition same_shape :: "'m Node list \<Rightarrow> 'm Node list \<Rightarrow> bool" where
  "same_shape ns ns' \<longleftrightarrow>
     length ns' = length ns
   \<and> (\<forall>i<length ns. move (ns' ! i) = move (ns ! i) \<and> parentNode (ns' ! i) = parentNode (ns ! i)
         \<and> childNodes (ns' ! i) = childNodes (ns ! i) \<and> untriedMoves (ns' ! i) = untriedMoves (ns ! i))"

text \<open>
  A board library describes a finite game when every position that is not over has a
  legal move and every legal move played there lowers a rank of the position, as the
  plies left until the 75-move rule or a fivefold repetition ends a game of chess do.
\<close>

definition finite_game :: "('s, 'm) Board \<Rightarrow> ('s \<Rightarrow> nat) \<Rightarrow> bool" where
  "finite_game lib rank \<longleftrightarrow>
     (\<forall>s. \<not> is_game_over lib s \<longrightarrow>
        legal_moves lib s \<noteq> [] \<and> (\<forall>m\<in>set (legal_moves lib s). rank (push lib s m) < rank s))"

text \<open>
  Every node but the root has been visited, and so has the root once it has a child.
\<close>

definition visited_ok :: "'m Node list \<Rightarrow> bool" where
  "visited_ok ns \<longleftrightarrow>
     (\<forall>i<length ns. 0 < i \<longrightarrow> 1 \<le> visits (ns ! i))
   \<and> (childNodes (ns ! 0) \<noteq> [] \<longrightarrow> 1 \<le> visits (ns ! 0))"

text \<open>The invariant of the node store between two iterations of \<^verbatim>\<open>UCT\<close>.\<close>

definition tree_inv :: "('s, 'm) Board \<Rightarrow> 's \<Rightarrow> 'm Node list \<Rightarrow> bool" where
  "tree_inv lib rootpos ns \<longleftrightarrow> parents_ok ns \<and> children_ok ns \<and> score_ok ns \<and> moves_ok lib rootpos ns"

text \<open>
  The heap after \<^verbatim>\<open>UCT\<close> ran three iterations on \<open>two_moves\<close> from \<open>heap0\<close> with the
  oracle \<open>\<lambda>k. k\<close>: both moves expanded, then the move 7 selected again.
\<close>

definition final3 :: "(nat, nat) heap" where
  "final3 =
     \<lparr>nodes =
        [\<lparr>move = None, parentNode = None, childNodes = [1, 2], wins = 1, visits = 3,
           untriedMoves = [], playerJustMoved = True\<rparr>,
         \<lparr>move = Some 7, parentNode = Some 0, childNodes = [], wins = 2, visits = 2,
           untriedMoves = [], playerJustMoved = True\<rparr>,
         \<lparr>move = Some 9, parentNode = Some 0, childNodes = [], wins = - 1, visits = 1,
           untriedMoves = [], playerJustMoved = True\<rparr>],
      boards = [0, 7, 9, 7], draws = 2\<rparr>"

section \<open>Properties\<close>

subsection \<open>Evaluation on concrete inputs\<close>

lemmas toy_simps = toy_def two_moves_def star_game_def

lemmas run_simps =
  UCT_gen_def root_heap_def iteration_def board_copy_def board_push_def
  select_loop.simps expand_def pick_plain_def random_choice_def random_choices_def sample_def
  rollout_loop.simps backprop.simps AddChild_def Node_init_def Update_def Let_def
  UCTSelectChild_def key_error_def sorted_last_def uct_key_def heap0_def
  policy_def weights_of_def dict_init_def dict_add_def adjust_def adjust_common_def
  piece_development_squares_def

subsection \<open>The opening book\<close>

text \<open>
  Every key of the table has a space as its third character (they all start with
  \<^verbatim>\<open>e4\<close>); the third character of a rendered move stack is the file letter of a square,
  or the digit of \<^verbatim>\<open>0000\<close>. So the lookup misses on every board.
\<close>

lemma file_char_not_space: "''abcdefgh'' ! (sq mod 8) \<noteq> CHR '' ''"
proof -
  have "sq mod 8 < 8" by simp
  then consider "sq mod 8 = 0" | "sq mod 8 = 1" | "sq mod 8 = 2" | "sq mod 8 = 3"
    | "sq mod 8 = 4" | "sq mod 8 = 5" | "sq mod 8 = 6" | "sq mod 8 = 7"
    by linarith
  then show ?thesis by cases simp_all
qed

lemma move_uci_third: "3 \<le> length (move_uci m) \<and> move_uci m ! 2 \<noteq> CHR '' ''"
  by (simp add: move_uci_def square_name_def file_char_not_space)

lemma join_space_third:
  assumes "3 \<le> length x"
  shows "join_space (x # xs) ! 2 = x ! 2"
proof (cases xs)
  case Nil
  then show ?thesis by simp
next
  case (Cons y ys)
  with assms show ?thesis by (simp add: nth_append)
qed

lemma openings_keys_third: "\<forall>k\<in>set (map fst OPENINGS). k \<noteq> [] \<and> k ! 2 = CHR '' ''"
  by (simp add: OPENINGS_def)

lemma opening_lookup_always_misses:
  "get_opening_move move_uci move_from_uci move_stack = Inr None"
proof -
  let ?r = "join_space (map move_uci move_stack)"
  have "?r \<notin> set (map fst OPENINGS)"
  proof (cases move_stack)
    case Nil
    with openings_keys_third show ?thesis by auto
  next
    case (Cons m ms)
    from move_uci_third [of m] have "?r ! 2 = move_uci m ! 2"
      unfolding Cons by (simp add: join_space_third)
    with move_uci_third [of m] have "?r ! 2 \<noteq> CHR '' ''" by simp
    with openings_keys_third show ?thesis by blast
  qed
  then have "?r \<notin> fst ` set (rev OPENINGS)" by simp
  then have "openings_get ?r = None"
    unfolding openings_get_def map_of_eq_None_iff .
  then show ?thesis by (simp add: get_opening_move_def)
qed

lemma openings_values_not_uci:
  "set (map (\<lambda>(k, v). move_from_uci v) OPENINGS) = {Inl InvalidMoveError}"
  by code_simp

text \<open>
  C1. After 1. e4 e5 the move stack reads \<^verbatim>\<open>e2e4 e7e5\<close>, since \<^verbatim>\<open>str\<close> of a move is its UCI
  form; this is no key of the table, whose keys are in algebraic notation, so
  \<^verbatim>\<open>get_opening_move\<close> returns \<^verbatim>\<open>None\<close> and \<^verbatim>\<open>play_game\<close> calls \<^verbatim>\<open>UCT(board, 50)\<close>. And
  \<^verbatim>\<open>Move.from_uci\<close> rejects the table's value \<^verbatim>\<open>Nf3\<close>, as it does every value
  of the table. On no board at all does \<^verbatim>\<open>play_game\<close> take a move from the table.
\<close>

theorem opening_lookup_misses_after_e4_e5:
  "join_space (map move_uci after_e4_e5) = ''e2e4 e7e5''
   \<and> get_opening_move move_uci move_from_uci after_e4_e5 = Inr None
   \<and> play_game_choice move_uci move_from_uci after_e4_e5 = Inr (Search 50)
   \<and> openings_get ''e4 e5'' = Some ''Nf3''
   \<and> move_from_uci ''Nf3'' = Inl InvalidMoveError
   \<and> set (map (\<lambda>(k, v). move_from_uci v) OPENINGS) = {Inl InvalidMoveError}
   \<and> (\<forall>move_stack. play_game_choice move_uci move_from_uci move_stack = Inr (Search 50))"
proof -
  have "\<forall>move_stack. play_game_choice move_uci move_from_uci move_stack = Inr (Search 50)"
    by (simp add: play_game_choice_def opening_lookup_always_misses)
  then show ?thesis
    using openings_values_not_uci
    by (simp add: play_game_choice_def get_opening_move_def move_uci_def square_name_def
        truthy_def openings_get_def OPENINGS_def after_e4_e5_def move_from_uci_def)
qed

subsection \<open>Sorting and taking the last\<close>

lemma last_filter_split:
  "filter P xs \<noteq> [] \<Longrightarrow> \<exists>pre post. xs = pre @ last (filter P xs) # post \<and> (\<forall>d\<in>set post. \<not> P d)"
proof (induction xs rule: rev_induct)
  case Nil
  then show ?case by simp
next
  case (snoc x xs)
  show ?case
  proof (cases "P x")
    case True
    then have "xs @ [x] = xs @ last (filter P (xs @ [x])) # []" by simp
    then show ?thesis by (metis empty_iff list.set(1))
  next
    case False
    with snoc.prems have ne: "filter P xs \<noteq> []" by simp
    from snoc.IH [OF ne] obtain pre post where
      xs: "xs = pre @ last (filter P xs) # post" and np: "\<forall>d\<in>set post. \<not> P d" by blast
    have l: "last (filter P (xs @ [x])) = last (filter P xs)" using False by simp
    have "xs @ [x] = pre @ last (filter P (xs @ [x])) # (post @ [x])"
      using xs l by simp
    moreover have "\<forall>d\<in>set (post @ [x]). \<not> P d" using np False by simp
    ultimately show ?thesis by blast
  qed
qed

lemma last_filter_last: "ys \<noteq> [] \<Longrightarrow> P (last ys) \<Longrightarrow> last (filter P ys) = last ys"
  by (induction ys rule: rev_induct) auto

lemma sorted_last_ge:
  assumes "sorted (map f ys)" "d \<in> set ys" "ys \<noteq> []"
  shows "f d \<le> f (last ys)"
proof -
  from assms(2) obtain i where i: "i < length ys" "ys ! i = d" by (auto simp: in_set_conv_nth)
  have "map f ys ! i \<le> map f ys ! (length ys - 1)"
    using assms(1) i(1) by (intro sorted_nth_mono) auto
  then show ?thesis using i assms(3) by (simp add: last_conv_nth)
qed

lemma sorted_last_spec:
  fixes f :: "'a \<Rightarrow> 'k::linorder"
  assumes "xs \<noteq> []"
  shows "\<exists>c pre post. sorted_last f xs = Inr c \<and> xs = pre @ c # post
           \<and> (\<forall>d\<in>set xs. f d \<le> f c) \<and> (\<forall>d\<in>set post. f d < f c)"
proof -
  define ys where "ys = sort_key f xs"
  have ne: "ys \<noteq> []" using assms by (metis length_0_conv length_sort ys_def)
  have srt: "sorted (map f ys)" by (simp add: ys_def)
  have st: "set ys = set xs" by (simp add: ys_def)
  define c where "c = last ys"
  have res: "sorted_last f xs = Inr c"
    using ne by (cases ys) (auto simp: sorted_last_def ys_def[symmetric] c_def)
  have mx: "\<forall>d\<in>set xs. f d \<le> f c"
    using sorted_last_ge [OF srt _ ne] st by (auto simp: c_def)
  have fl: "filter (\<lambda>y. f y = f c) ys = filter (\<lambda>y. f y = f c) xs"
    unfolding ys_def by (rule sort_key_stable)
  have "last (filter (\<lambda>y. f y = f c) ys) = c"
    using ne by (simp add: c_def last_filter_last)
  then have lc: "last (filter (\<lambda>y. f y = f c) xs) = c" using fl by simp
  have "c \<in> set ys" using ne by (simp add: c_def)
  then have "filter (\<lambda>y. f y = f c) ys \<noteq> []" by (auto simp: filter_empty_conv)
  then have fne: "filter (\<lambda>y. f y = f c) xs \<noteq> []" using fl by simp
  from last_filter_split [OF fne] lc obtain pre post where
    xs: "xs = pre @ c # post" and np: "\<forall>d\<in>set post. f d \<noteq> f c" by auto
  have "\<forall>d\<in>set post. f d < f c"
  proof
    fix d assume d: "d \<in> set post"
    then have "d \<in> set xs" using xs by simp
    with mx have "f d \<le> f c" by blast
    with np d show "f d < f c" by (simp add: order_less_le)
  qed
  with res xs mx show ?thesis by blast
qed

subsection \<open>UCTSelectChild\<close>

lemma first_error_None:
  "\<forall>x\<in>set xs. f x = None \<Longrightarrow> first_error f xs = None"
  by (induction xs) auto




subsection \<open>Update\<close>

lemma Update_visits: "visits (Update n r) = visits n + 1"
  by (simp add: Update_def Let_def)

lemma Update_shape:
  "move (Update n r) = move n" "parentNode (Update n r) = parentNode n"
  "childNodes (Update n r) = childNodes n" "untriedMoves (Update n r) = untriedMoves n"
  by (simp_all add: Update_def Let_def)

lemma Update_wins:
  "wins (Update n r) - wins n \<in> {-1, 0, 1/2, 1}"
  by (simp add: Update_def Let_def)

lemma Update_score_bound:
  "\<bar>wins n\<bar> \<le> real (visits n) \<Longrightarrow> \<bar>wins (Update n r)\<bar> \<le> real (visits (Update n r))"
  by (auto simp add: Update_def Let_def abs_le_iff)

text \<open>
  C3 (as stated, refuted). On a game whose final position reports the result \<^verbatim>\<open>*\<close>, a
  search of one iteration returns a move; both nodes were updated with \<^verbatim>\<open>*\<close>, which
  raised nothing, counted a visit and left the score at 0.
\<close>

theorem unknown_result_search_completes:
  "UCT (\<lambda>k. 0) star_game heap0 0 1 =
     Some (Inr (Some 7,
       \<lparr>nodes = [\<lparr>move = None, parentNode = None, childNodes = [1], wins = 0, visits = 1,
                   untriedMoves = [], playerJustMoved = True\<rparr>,
                 \<lparr>move = Some 7, parentNode = Some 0, childNodes = [], wins = 0, visits = 1,
                   untriedMoves = [], playerJustMoved = True\<rparr>],
         boards = [0, 7], draws = 1\<rparr>))"
  by (simp add: UCT_def rollout_policy_def run_simps toy_simps)

text \<open>
  C3 (amended). \<^verbatim>\<open>Update\<close> with a result other than \<^verbatim>\<open>1-0\<close>, \<^verbatim>\<open>0-1\<close> and \<^verbatim>\<open>1/2-1/2\<close> counts
  the visit and leaves every other field, the score among them, as it was.
\<close>

theorem Update_unknown_result:
  assumes "r \<noteq> ''1-0''" and "r \<noteq> ''0-1''" and "r \<noteq> ''1/2-1/2''"
  shows "Update n r = n\<lparr>visits := visits n + 1\<rparr>"
  using assms by (simp add: Update_def)

theorem Update_unknown_result_witness:
  "''*'' \<noteq> ''1-0'' \<and> ''*'' \<noteq> ''0-1'' \<and> ''*'' \<noteq> ''1/2-1/2''
   \<and> Update (tied_tree ! 1) ''*'' = (tied_tree ! 1)\<lparr>visits := visits (tied_tree ! 1) + 1\<rparr>"
  using Update_unknown_result [of "''*''" "tied_tree ! 1"] by simp

subsection \<open>rollout\_policy\<close>

lemma dict_init_distinct: "distinct ks \<Longrightarrow> dict_init ks = map (\<lambda>k. (k, 1)) ks"
  by (simp add: dict_init_def distinct_remdups_id)

lemma dict_add_map: "dict_add k d (map (\<lambda>k. (k, g k)) ks) = map (\<lambda>k'. (k', if k' = k then g k' + d else g k')) ks"
  by (simp add: dict_add_def)

lemma fold_dict_add:
  "distinct ms \<Longrightarrow>
   fold (\<lambda>m w. dict_add m (a m) w) ms (map (\<lambda>k. (k, g k)) ks)
     = map (\<lambda>k. (k, if k \<in> set ms then g k + a k else g k)) ks"
proof (induction ms arbitrary: g)
  case Nil
  then show ?case by simp
next
  case (Cons m ms)
  then have d: "distinct ms" and nm: "m \<notin> set ms" by simp_all
  show ?case
    apply (simp add: dict_add_map Cons.IH [OF d])
    using nm by auto
qed

lemma weights_of_distinct:
  "distinct (legal_moves lib b) \<Longrightarrow>
   weights_of adj lib b = map (\<lambda>m. (m, 1 + adj lib b m)) (legal_moves lib b)"
  by (simp add: weights_of_def dict_init_distinct fold_dict_add)

text \<open>
  C2. On the position with the pinned rook the weights are 11 for Rxe8+ (1, capture 10,
  check 5, pin -5), -4 for each of the five other rook moves and 1 for each king move.
  They sum to -5, which is not 0: the policy makes no uniform choice, and the weighted
  sampler receives the quotients of these weights by -5, the quotient of 11 by -5 for the
  capture among them. No weight is clamped and the negative total is not caught.
\<close>

theorem rollout_policy_negative_total:
  "weights_of adjust (pinned_rook fd) 0
     = [(mk_move 12 60, 11), (mk_move 12 52, - 4), (mk_move 12 44, - 4), (mk_move 12 36, - 4), (mk_move 12 28, - 4),
        (mk_move 12 20, - 4), (mk_move 4 13, 1), (mk_move 4 11, 1), (mk_move 4 5, 1), (mk_move 4 3, 1)]
   \<and> sum_list (map snd (weights_of adjust (pinned_rook fd) 0)) = - 5
   \<and> rollout_policy (pinned_rook fd) 0
     = Choices [mk_move 12 60, mk_move 12 52, mk_move 12 44, mk_move 12 36, mk_move 12 28, mk_move 12 20,
                mk_move 4 13, mk_move 4 11, mk_move 4 5, mk_move 4 3]
               [fd 11 (- 5), fd (- 4) (- 5), fd (- 4) (- 5), fd (- 4) (- 5), fd (- 4) (- 5),
                fd (- 4) (- 5), fd 1 (- 5), fd 1 (- 5), fd 1 (- 5), fd 1 (- 5)]"
proof -
  have w: "weights_of adjust (pinned_rook fd) 0
     = [(mk_move 12 60, 11), (mk_move 12 52, - 4), (mk_move 12 44, - 4), (mk_move 12 36, - 4), (mk_move 12 28, - 4),
        (mk_move 12 20, - 4), (mk_move 4 13, 1), (mk_move 4 11, 1), (mk_move 4 5, 1), (mk_move 4 3, 1)]"
    by (simp add: weights_of_def dict_init_def dict_add_def adjust_def adjust_common_def
        piece_development_squares_def pinned_rook_def mk_move_def)
  have f: "fdiv (pinned_rook fd) = fd" by (simp add: pinned_rook_def)
  show ?thesis
    unfolding rollout_policy_def policy_def Let_def w f by simp
qed

subsection \<open>Shape of the node store\<close>

lemma same_shape_refl: "same_shape ns ns"
  by (simp add: same_shape_def)

lemma same_shape_trans: "same_shape a b \<Longrightarrow> same_shape b c \<Longrightarrow> same_shape a c"
  by (simp add: same_shape_def)

lemma same_shape_Update: "same_shape ns (ns[i := Update (ns ! i) r])"
  unfolding same_shape_def
proof (intro conjI allI impI)
  fix j assume "j < length ns"
  then show "move (ns[i := Update (ns ! i) r] ! j) = move (ns ! j)"
    "parentNode (ns[i := Update (ns ! i) r] ! j) = parentNode (ns ! j)"
    "childNodes (ns[i := Update (ns ! i) r] ! j) = childNodes (ns ! j)"
    "untriedMoves (ns[i := Update (ns ! i) r] ! j) = untriedMoves (ns ! j)"
    by (cases "j = i"; simp add: Update_shape)+
qed simp

lemma node_state_mono:
  assumes "node_state lib rootpos ns i s"
    and "length ns \<le> length ns'"
    and "\<And>c. c < length ns \<Longrightarrow> parentNode (ns' ! c) = parentNode (ns ! c) \<and> move (ns' ! c) = move (ns ! c)"
  shows "node_state lib rootpos ns' i s"
  using assms(1)
proof (induction rule: node_state.induct)
  case at_root
  show ?case by (rule node_state.at_root)
next
  case (at_child p s c m)
  from at_child.hyps(2) assms(2) have "c < length ns'" by simp
  moreover from assms(3) [OF at_child.hyps(2)] at_child.hyps(3,4)
  have "parentNode (ns' ! c) = Some p" "move (ns' ! c) = Some m" by simp_all
  ultimately show ?case using at_child.IH by (intro node_state.at_child)
qed

lemma parents_ok_shape: "same_shape ns ns' \<Longrightarrow> parents_ok ns \<Longrightarrow> parents_ok ns'"
  by (auto simp: same_shape_def parents_ok_def)

lemma children_ok_shape: "same_shape ns ns' \<Longrightarrow> children_ok ns \<Longrightarrow> children_ok ns'"
  by (simp add: same_shape_def children_ok_def)

lemma moves_ok_shape:
  assumes sh: "same_shape ns ns'" and ch: "children_ok ns" and mv: "moves_ok lib rootpos ns"
  shows "moves_ok lib rootpos ns'"
  unfolding moves_ok_def
proof (intro allI impI)
  fix i assume "i < length ns'"
  then have i: "i < length ns" using sh by (simp add: same_shape_def)
  from mv i obtain s where s: "node_state lib rootpos ns i s"
    and eq: "mset (map Some (untriedMoves (ns ! i))) + mset (map (\<lambda>c. move (ns ! c)) (childNodes (ns ! i)))
          = mset (map Some (legal_moves lib s))"
    unfolding moves_ok_def by blast
  have len: "length ns' = length ns" using sh by (simp add: same_shape_def)
  have fld: "\<And>c. c < length ns \<Longrightarrow> parentNode (ns' ! c) = parentNode (ns ! c) \<and> move (ns' ! c) = move (ns ! c)"
    using sh by (simp add: same_shape_def)
  have ns': "node_state lib rootpos ns' i s"
    by (rule node_state_mono [OF s]) (simp_all add: len fld)
  have m: "map (\<lambda>c. move (ns' ! c)) (childNodes (ns ! i)) = map (\<lambda>c. move (ns ! c)) (childNodes (ns ! i))"
  proof (rule map_cong [OF refl])
    fix c assume "c \<in> set (childNodes (ns ! i))"
    with ch i have "c < length ns" by (simp add: children_ok_def)
    then show "move (ns' ! c) = move (ns ! c)" by (simp add: fld)
  qed
  have u: "untriedMoves (ns' ! i) = untriedMoves (ns ! i)" "childNodes (ns' ! i) = childNodes (ns ! i)"
    using sh i by (simp_all add: same_shape_def)
  show "\<exists>s. node_state lib rootpos ns' i s
        \<and> mset (map Some (untriedMoves (ns' ! i))) + mset (map (\<lambda>c. move (ns' ! c)) (childNodes (ns' ! i)))
          = mset (map Some (legal_moves lib s))"
    by (rule exI [of _ s]) (simp only: u m eq ns' simp_thms)
qed

lemma AddChild_Inr:
  assumes "AddChild lib ns self m s = Inr (ns', n)" and "self < length ns"
  shows "n = length ns" and "m \<in> set (untriedMoves (ns ! self))"
    and "ns' = (ns @ [Node_init lib (Some m) (Some self) s])
            [self := (ns ! self)\<lparr>untriedMoves := remove1 m (untriedMoves (ns ! self)),
                                 childNodes := childNodes (ns ! self) @ [length ns]\<rparr>]"
  using assms by (auto simp: AddChild_def Let_def nth_append split: if_splits)

lemma AddChild_nth:
  assumes "AddChild lib ns self m s = Inr (ns', n)" and "self < length ns"
  shows "length ns' = Suc (length ns)"
    and "ns' ! length ns = Node_init lib (Some m) (Some self) s"
    and "ns' ! self = (ns ! self)\<lparr>untriedMoves := remove1 m (untriedMoves (ns ! self)),
                                 childNodes := childNodes (ns ! self) @ [length ns]\<rparr>"
    and "\<And>i. i < length ns \<Longrightarrow> i \<noteq> self \<Longrightarrow> ns' ! i = ns ! i"
    and "\<And>i. i < length ns \<Longrightarrow> parentNode (ns' ! i) = parentNode (ns ! i) \<and> move (ns' ! i) = move (ns ! i)
            \<and> wins (ns' ! i) = wins (ns ! i) \<and> visits (ns' ! i) = visits (ns ! i)"
  using assms(2) unfolding AddChild_Inr(3) [OF assms]
  by (auto simp: nth_list_update nth_append)

lemma AddChild_parents_ok:
  assumes ac: "AddChild lib ns self m s = Inr (ns', n)" and self: "self < length ns"
    and ok: "parents_ok ns"
  shows "parents_ok ns'"
  unfolding parents_ok_def
proof (intro conjI allI impI)
  note nth = AddChild_nth [OF ac self]
  show "ns' \<noteq> []" using nth(1) by auto
  have "0 < length ns" using self by (cases ns) simp_all
  from nth(5) [OF this] ok show "parentNode (ns' ! 0) = None" by (simp add: parents_ok_def)
  fix c assume c: "c < length ns'" "0 < c"
  show "\<exists>p<c. parentNode (ns' ! c) = Some p"
  proof (cases "c < length ns")
    case True
    with ok c(2) nth(5) [OF True] show ?thesis by (simp add: parents_ok_def)
  next
    case False
    with c(1) nth(1) have "c = length ns" by simp
    with nth(2) self show ?thesis by (simp add: Node_init_def)
  qed
qed

lemma AddChild_children_ok:
  assumes ac: "AddChild lib ns self m s = Inr (ns', n)" and self: "self < length ns"
    and ok: "children_ok ns"
  shows "children_ok ns'"
  unfolding children_ok_def
proof (intro allI impI ballI)
  note nth = AddChild_nth [OF ac self]
  fix i c assume i: "i < length ns'" and c: "c \<in> set (childNodes (ns' ! i))"
  have old: "\<And>j d. j < length ns \<Longrightarrow> d \<in> set (childNodes (ns ! j))
      \<Longrightarrow> d < length ns' \<and> parentNode (ns' ! d) = Some j"
  proof -
    fix j d assume "j < length ns" "d \<in> set (childNodes (ns ! j))"
    with ok have d: "d < length ns" "parentNode (ns ! d) = Some j" by (simp_all add: children_ok_def)
    with nth(1) nth(5) [OF d(1)] show "d < length ns' \<and> parentNode (ns' ! d) = Some j" by simp
  qed
  consider "i = length ns" | "i = self" | "i < length ns" "i \<noteq> self"
    using i nth(1) by linarith
  then show "c < length ns' \<and> parentNode (ns' ! c) = Some i"
  proof cases
    case 1
    with c nth(2) show ?thesis by (simp add: Node_init_def)
  next
    case 2
    with c nth(3) have "c \<in> set (childNodes (ns ! self)) \<or> c = length ns" by auto
    then show ?thesis
    proof
      assume "c \<in> set (childNodes (ns ! self))"
      from old [OF self this] 2 show ?thesis by simp
    next
      assume "c = length ns"
      with nth(1,2) 2 show ?thesis by (simp add: Node_init_def)
    qed
  next
    case 3
    with c nth(4) have "c \<in> set (childNodes (ns ! i))" by simp
    from old [OF 3(1) this] show ?thesis .
  qed
qed

lemma AddChild_score_ok:
  assumes ac: "AddChild lib ns self m s = Inr (ns', n)" and self: "self < length ns"
    and ok: "score_ok ns"
  shows "score_ok ns'"
  unfolding score_ok_def
proof (intro allI impI)
  note nth = AddChild_nth [OF ac self]
  fix i assume i: "i < length ns'"
  show "\<bar>wins (ns' ! i)\<bar> \<le> real (visits (ns' ! i))"
  proof (cases "i < length ns")
    case True
    with ok nth(5) [OF True] show ?thesis by (simp add: score_ok_def)
  next
    case False
    with i nth(1) have "i = length ns" by simp
    with nth(2) show ?thesis by (simp add: Node_init_def)
  qed
qed

lemma AddChild_moves_ok:
  assumes ac: "AddChild lib ns self m s = Inr (ns', n)" and self: "self < length ns"
    and ch: "children_ok ns" and ok: "moves_ok lib rootpos ns"
    and st: "node_state lib rootpos ns self s0" and s: "s = push lib s0 m"
  shows "moves_ok lib rootpos ns'"
  unfolding moves_ok_def
proof (intro allI impI)
  note nth = AddChild_nth [OF ac self]
  note inr = AddChild_Inr [OF ac self]
  have mono: "\<And>i t. node_state lib rootpos ns i t \<Longrightarrow> node_state lib rootpos ns' i t"
    by (erule node_state_mono) (simp_all add: nth(1) nth(5))
  have cm: "\<And>j. j < length ns \<Longrightarrow>
      map (\<lambda>c. move (ns' ! c)) (childNodes (ns ! j)) = map (\<lambda>c. move (ns ! c)) (childNodes (ns ! j))"
  proof (rule map_cong [OF refl])
    fix j c assume "j < length ns" "c \<in> set (childNodes (ns ! j))"
    with ch have "c < length ns" by (simp add: children_ok_def)
    from nth(5) [OF this] show "move (ns' ! c) = move (ns ! c)" by simp
  qed
  fix i assume i: "i < length ns'"
  consider "i = length ns" | "i = self" | "i < length ns" "i \<noteq> self"
    using i nth(1) by linarith
  then show "\<exists>t. node_state lib rootpos ns' i t
        \<and> mset (map Some (untriedMoves (ns' ! i))) + mset (map (\<lambda>c. move (ns' ! c)) (childNodes (ns' ! i)))
          = mset (map Some (legal_moves lib t))"
  proof cases
    case 1
    have "node_state lib rootpos ns' (length ns) (push lib s0 m)"
      by (rule node_state.at_child [OF mono [OF st]]) (simp_all add: nth(1,2) Node_init_def)
    then show ?thesis using 1 nth(2) s by (auto simp: Node_init_def)
  next
    case 2
    from ok self obtain t where t: "node_state lib rootpos ns self t"
      and eq: "mset (map Some (untriedMoves (ns ! self))) + mset (map (\<lambda>c. move (ns ! c)) (childNodes (ns ! self)))
          = mset (map Some (legal_moves lib t))"
      unfolding moves_ok_def by blast
    have r: "mset (map Some (remove1 m (untriedMoves (ns ! self)))) + {#Some m#}
        = mset (map Some (untriedMoves (ns ! self)))"
      using inr(2) by (simp add: mset_remove1 image_mset_Diff)
    have "mset (map Some (untriedMoves (ns' ! self))) + mset (map (\<lambda>c. move (ns' ! c)) (childNodes (ns' ! self)))
        = mset (map Some (remove1 m (untriedMoves (ns ! self)))) + {#Some m#}
          + mset (map (\<lambda>c. move (ns ! c)) (childNodes (ns ! self)))"
      by (simp add: nth(3) nth(2) cm [OF self] Node_init_def)
    also have "\<dots> = mset (map Some (legal_moves lib t))"
      unfolding r by (rule eq)
    finally show ?thesis using mono [OF t] 2 by blast
  next
    case 3
    from ok 3(1) obtain t where t: "node_state lib rootpos ns i t"
      and eq: "mset (map Some (untriedMoves (ns ! i))) + mset (map (\<lambda>c. move (ns ! c)) (childNodes (ns ! i)))
          = mset (map Some (legal_moves lib t))"
      unfolding moves_ok_def by blast
    show ?thesis
      by (rule exI [of _ t]) (simp only: mono [OF t] eq nth(4) [OF 3] cm [OF 3(1)] simp_thms)
  qed
qed

subsection \<open>Selection\<close>

lemma kept_refl: "kept L h h"
  by (simp add: kept_def)

lemma kept_trans: "kept L h h1 \<Longrightarrow> kept L h1 h2 \<Longrightarrow> kept L h h2"
  by (simp add: kept_def)

lemma kept_push: "L \<le> st \<Longrightarrow> kept L h (board_push lib h st m)"
  by (simp add: kept_def board_push_def)

lemma board_push_fields:
  "nodes (board_push lib h st m) = nodes h" "draws (board_push lib h st m) = draws h"
  "length (boards (board_push lib h st m)) = length (boards h)"
  "st < length (boards h) \<Longrightarrow> boards (board_push lib h st m) ! st = push lib (boards h ! st) m"
  by (simp_all add: board_push_def)

lemma sorted_last_mem: "sorted_last f xs = Inr c \<Longrightarrow> c \<in> set xs"
proof -
  assume a: "sorted_last f xs = Inr c"
  then have "sort_key f xs \<noteq> []" by (auto simp: sorted_last_def)
  moreover from a have "c = last (sort_key f xs)"
    by (auto simp: sorted_last_def split: list.splits)
  ultimately have "c \<in> set (sort_key f xs)" using last_in_set by blast
  then show ?thesis by simp
qed

lemma UCTSelectChild_mem: "UCTSelectChild lib ns self = Inr c \<Longrightarrow> c \<in> set (childNodes (ns ! self))"
  by (auto simp: UCTSelectChild_def split: option.splits dest: sorted_last_mem)

lemma select_loop_frame_aux:
  assumes "select_loop lib h node st = Some y"
  shows "nodes (final_heap y) = nodes h \<and> draws (final_heap y) = draws h
       \<and> (\<forall>L. L \<le> st \<longrightarrow> kept L h (final_heap y))"
proof (rule select_loop.raw_induct
    [where P = "\<lambda>lib h node st y. nodes (final_heap y) = nodes h \<and> draws (final_heap y) = draws h
       \<and> (\<forall>L. L \<le> st \<longrightarrow> kept L h (final_heap y))", OF _ assms])
  fix sl :: "('a, 'b) Board \<Rightarrow> ('a, 'b) heap \<Rightarrow> nat \<Rightarrow> nat \<Rightarrow> (nat, 'a, 'b) res option"
    and lib h node st y
  assume IH: "\<And>lib' h' node' st' y'. sl lib' h' node' st' = Some y'
      \<Longrightarrow> nodes (final_heap y') = nodes h' \<and> draws (final_heap y') = draws h'
       \<and> (\<forall>L. L \<le> st' \<longrightarrow> kept L h' (final_heap y'))"
    and step: "(if untriedMoves (nodes h ! node) = [] \<and> childNodes (nodes h ! node) \<noteq> [] then
        (case UCTSelectChild lib (nodes h) node of
           Inl e \<Rightarrow> Some (Inl (e, h))
         | Inr c \<Rightarrow>
            (case move (nodes h ! c) of
               None \<Rightarrow> Some (Inl (AttributeError, h))
             | Some m \<Rightarrow> sl lib (board_push lib h st m) c st))
      else Some (Inr (node, h))) = Some y"
  show "nodes (final_heap y) = nodes h \<and> draws (final_heap y) = draws h
       \<and> (\<forall>L. L \<le> st \<longrightarrow> kept L h (final_heap y))"
    using step
    by (auto simp: kept_refl board_push_fields split: if_splits sum.splits option.splits
        dest!: IH intro: kept_trans [OF kept_push])
qed

lemma select_loop_frame:
  assumes "select_loop lib h node st = Some y"
  shows "nodes (final_heap y) = nodes h" "draws (final_heap y) = draws h"
    "L \<le> st \<Longrightarrow> kept L h (final_heap y)"
  using select_loop_frame_aux [OF assms] by simp_all

lemma select_loop_node_aux:
  assumes "select_loop lib h node st = Some y"
  shows "\<forall>node' h'. y = Inr (node', h') \<longrightarrow> children_ok (nodes h) \<longrightarrow> node < length (nodes h)
          \<longrightarrow> st < length (boards h) \<longrightarrow> node_state lib rootpos (nodes h) node (boards h ! st)
          \<longrightarrow> node' < length (nodes h) \<and> node_state lib rootpos (nodes h) node' (boards h' ! st)
              \<and> \<not> (untriedMoves (nodes h ! node') = [] \<and> childNodes (nodes h ! node') \<noteq> [])"
proof (rule select_loop.raw_induct
    [where P = "\<lambda>lib h node st y. \<forall>node' h'. y = Inr (node', h') \<longrightarrow> children_ok (nodes h) \<longrightarrow> node < length (nodes h)
          \<longrightarrow> st < length (boards h) \<longrightarrow> node_state lib rootpos (nodes h) node (boards h ! st)
          \<longrightarrow> node' < length (nodes h) \<and> node_state lib rootpos (nodes h) node' (boards h' ! st)
              \<and> \<not> (untriedMoves (nodes h ! node') = [] \<and> childNodes (nodes h ! node') \<noteq> [])", OF _ assms])
  fix sl :: "('a, 'b) Board \<Rightarrow> ('a, 'b) heap \<Rightarrow> nat \<Rightarrow> nat \<Rightarrow> (nat, 'a, 'b) res option"
    and lib h node st y
  assume IH: "\<And>lib' h' node' st' y'. sl lib' h' node' st' = Some y'
      \<Longrightarrow> \<forall>n2 h2. y' = Inr (n2, h2) \<longrightarrow> children_ok (nodes h') \<longrightarrow> node' < length (nodes h')
          \<longrightarrow> st' < length (boards h') \<longrightarrow> node_state lib' rootpos (nodes h') node' (boards h' ! st')
          \<longrightarrow> n2 < length (nodes h') \<and> node_state lib' rootpos (nodes h') n2 (boards h2 ! st')
              \<and> \<not> (untriedMoves (nodes h' ! n2) = [] \<and> childNodes (nodes h' ! n2) \<noteq> [])"
    and step: "(if untriedMoves (nodes h ! node) = [] \<and> childNodes (nodes h ! node) \<noteq> [] then
        (case UCTSelectChild lib (nodes h) node of
           Inl e \<Rightarrow> Some (Inl (e, h))
         | Inr c \<Rightarrow>
            (case move (nodes h ! c) of
               None \<Rightarrow> Some (Inl (AttributeError, h))
             | Some m \<Rightarrow> sl lib (board_push lib h st m) c st))
      else Some (Inr (node, h))) = Some y"
  show "\<forall>node' h'. y = Inr (node', h') \<longrightarrow> children_ok (nodes h) \<longrightarrow> node < length (nodes h)
          \<longrightarrow> st < length (boards h) \<longrightarrow> node_state lib rootpos (nodes h) node (boards h ! st)
          \<longrightarrow> node' < length (nodes h) \<and> node_state lib rootpos (nodes h) node' (boards h' ! st)
              \<and> \<not> (untriedMoves (nodes h ! node') = [] \<and> childNodes (nodes h ! node') \<noteq> [])"
  proof (intro allI impI)
    fix node' h'
    assume y: "y = Inr (node', h')" and ch: "children_ok (nodes h)" and n: "node < length (nodes h)"
      and st: "st < length (boards h)" and ns: "node_state lib rootpos (nodes h) node (boards h ! st)"
    show "node' < length (nodes h) \<and> node_state lib rootpos (nodes h) node' (boards h' ! st)
              \<and> \<not> (untriedMoves (nodes h ! node') = [] \<and> childNodes (nodes h ! node') \<noteq> [])"
    proof (cases "untriedMoves (nodes h ! node) = [] \<and> childNodes (nodes h ! node) \<noteq> []")
      case False
      with step y have "node' = node" "h' = h" by auto
      with n ns False show ?thesis by simp
    next
      case True
      with step y obtain c m where c: "UCTSelectChild lib (nodes h) node = Inr c"
        and m: "move (nodes h ! c) = Some m"
        and rec: "sl lib (board_push lib h st m) c st = Some (Inr (node', h'))"
        by (auto split: sum.splits option.splits)
      from UCTSelectChild_mem [OF c] ch n have cl: "c < length (nodes h)"
        and cp: "parentNode (nodes h ! c) = Some node" by (simp_all add: children_ok_def)
      have cs: "node_state lib rootpos (nodes h) c (push lib (boards h ! st) m)"
        by (rule node_state.at_child [OF ns cl cp m])
      from IH [OF rec, rule_format, OF refl] ch cl st cs
      show ?thesis by (simp add: board_push_fields)
    qed
  qed
qed

lemma select_loop_node:
  assumes "select_loop lib h node st = Some (Inr (node', h'))"
    and "children_ok (nodes h)" and "node < length (nodes h)" and "st < length (boards h)"
    and "node_state lib rootpos (nodes h) node (boards h ! st)"
  shows "node' < length (nodes h)" and "node_state lib rootpos (nodes h) node' (boards h' ! st)"
    and "untriedMoves (nodes h ! node') = [] \<Longrightarrow> childNodes (nodes h ! node') = []"
  using select_loop_node_aux [OF assms(1), of rootpos] assms(2-) by auto

subsection \<open>Expansion and simulation\<close>

lemma quantum_selection_untried:
  "untriedMoves (nodes h ! node) \<noteq> [] \<Longrightarrow> quantum_selection grover rnd h node = pick_plain rnd h node"
  by (simp add: quantum_selection_def pick_plain_def)

lemma expand_quantum: "expand (quantum_selection grover) = expand pick_plain"
  by (intro ext) (simp add: expand_def quantum_selection_untried)

lemma random_choice_Inr:
  "random_choice rnd h xs = Inr (x, h') \<Longrightarrow> x \<in> set xs \<and> h' = h\<lparr>draws := draws h + 1\<rparr>"
  by (auto simp: random_choice_def split: if_splits)

lemma random_choice_Inl:
  "random_choice rnd h xs = Inl (e, h') \<Longrightarrow> h' = h"
  by (auto simp: random_choice_def split: if_splits)

lemma sample_Inr: "sample rnd h call = Inr (x, h') \<Longrightarrow> h' = h\<lparr>draws := draws h + 1\<rparr>"
  by (auto simp: sample_def random_choice_def random_choices_def split: if_splits sampler.splits)

lemma sample_Inl: "sample rnd h call = Inl (e, h') \<Longrightarrow> h' = h"
  by (auto simp: sample_def random_choice_def random_choices_def split: if_splits sampler.splits)

lemma kept_draws: "kept L h (h\<lparr>draws := d\<rparr>)"
  by (simp add: kept_def)

lemma kept_nodes: "kept L h h1 \<Longrightarrow> kept L h (h1\<lparr>nodes := ns\<rparr>)"
  by (simp add: kept_def)

lemma expand_plain_Inr:
  assumes "expand pick_plain rnd lib h node st = Inr (n', h')" and "st < length (boards h)"
  shows "(untriedMoves (nodes h ! node) = [] \<and> n' = node \<and> h' = h)
       \<or> (\<exists>m ns'. AddChild lib (nodes h) node m (push lib (boards h ! st) m) = Inr (ns', n')
             \<and> h' = (board_push lib (h\<lparr>draws := draws h + 1\<rparr>) st m)\<lparr>nodes := ns'\<rparr>)"
proof (cases "untriedMoves (nodes h ! node) = []")
  case True
  with assms show ?thesis by (simp add: expand_def)
next
  case False
  with assms(1) obtain m h1 where p: "pick_plain rnd h node = Inr (m, h1)"
    and r: "(case AddChild lib (nodes (board_push lib h1 st m)) node m (boards (board_push lib h1 st m) ! st) of
               Inl e \<Rightarrow> Inl (e, board_push lib h1 st m)
             | Inr (ns, n) \<Rightarrow> Inr (n, (board_push lib h1 st m)\<lparr>nodes := ns\<rparr>)) = Inr (n', h')"
    by (auto simp: expand_def Let_def split: sum.splits prod.splits)
  from p have h1: "h1 = h\<lparr>draws := draws h + 1\<rparr>"
    by (auto simp: pick_plain_def dest: random_choice_Inr)
  from r obtain ns' where a: "AddChild lib (nodes (board_push lib h1 st m)) node m (boards (board_push lib h1 st m) ! st) = Inr (ns', n')"
    and h': "h' = (board_push lib h1 st m)\<lparr>nodes := ns'\<rparr>"
    by (auto split: sum.splits prod.splits)
  from a h1 assms(2) have "AddChild lib (nodes h) node m (push lib (boards h ! st) m) = Inr (ns', n')"
    by (simp add: board_push_def)
  with h' h1 show ?thesis by blast
qed

lemma expand_plain_kept:
  assumes "expand pick_plain rnd lib h node st = y" and "L \<le> st"
  shows "kept L h (final_heap y)"
proof (cases "untriedMoves (nodes h ! node) = []")
  case True
  with assms show ?thesis by (auto simp: expand_def kept_refl)
next
  case False
  show ?thesis
  proof (cases "pick_plain rnd h node")
    case (Inl a)
    then obtain e h1 where a: "a = (e, h1)" by (cases a)
    with Inl have "h1 = h" by (auto simp: pick_plain_def dest: random_choice_Inl)
    with Inl a False assms show ?thesis by (auto simp: expand_def kept_refl)
  next
    case (Inr b)
    then obtain m h1 where b: "b = (m, h1)" by (cases b)
    with Inr have h1: "h1 = h\<lparr>draws := draws h + 1\<rparr>"
      by (auto simp: pick_plain_def dest: random_choice_Inr)
    have k: "kept L h (board_push lib h1 st m)"
      unfolding h1 by (rule kept_trans [OF kept_draws kept_push [OF assms(2)]])
    from Inr b False assms(1) show ?thesis
      by (auto simp: expand_def Let_def k kept_nodes [OF k] split: sum.splits prod.splits)
  qed
qed

lemma rollout_loop_frame_aux:
  assumes "rollout_loop pol rnd lib h st = Some y"
  shows "nodes (final_heap y) = nodes h \<and> (\<forall>L. L \<le> st \<longrightarrow> kept L h (final_heap y))"
proof (rule rollout_loop.raw_induct
    [where P = "\<lambda>pol rnd lib h st y. nodes (final_heap y) = nodes h
       \<and> (\<forall>L. L \<le> st \<longrightarrow> kept L h (final_heap y))", OF _ assms])
  fix rl :: "(('a, 'b) Board \<Rightarrow> 'a \<Rightarrow> 'b sampler) \<Rightarrow> (nat \<Rightarrow> nat) \<Rightarrow> ('a, 'b) Board
      \<Rightarrow> ('a, 'b) heap \<Rightarrow> nat \<Rightarrow> (unit, 'a, 'b) res option"
    and pol rnd lib h st y
  assume IH: "\<And>pol' rnd' lib' h' st' y'. rl pol' rnd' lib' h' st' = Some y'
      \<Longrightarrow> nodes (final_heap y') = nodes h' \<and> (\<forall>L. L \<le> st' \<longrightarrow> kept L h' (final_heap y'))"
    and step: "(if \<not> is_game_over lib (boards h ! st) then
        (case sample rnd h (pol lib (boards h ! st)) of
           Inl e \<Rightarrow> Some (Inl e)
         | Inr (m, h1) \<Rightarrow> rl pol rnd lib (board_push lib h1 st m) st)
      else Some (Inr ((), h))) = Some y"
  show "nodes (final_heap y) = nodes h \<and> (\<forall>L. L \<le> st \<longrightarrow> kept L h (final_heap y))"
  proof (cases "is_game_over lib (boards h ! st)")
    case True
    with step show ?thesis by (auto simp: kept_refl)
  next
    case False
    show ?thesis
    proof (cases "sample rnd h (pol lib (boards h ! st))")
      case (Inl a)
      then obtain e h1 where a: "a = (e, h1)" by (cases a)
      with Inl have "h1 = h" by (auto dest: sample_Inl)
      with Inl a False step show ?thesis by (auto simp: kept_refl)
    next
      case (Inr b)
      then obtain m h1 where b: "b = (m, h1)" by (cases b)
      with Inr have h1: "h1 = h\<lparr>draws := draws h + 1\<rparr>" by (auto dest: sample_Inr)
      from Inr b False step have "rl pol rnd lib (board_push lib h1 st m) st = Some y" by simp
      from IH [OF this] have n: "nodes (final_heap y) = nodes h"
        and k: "\<And>L. L \<le> st \<Longrightarrow> kept L (board_push lib h1 st m) (final_heap y)"
        by (simp_all add: board_push_fields h1)
      have "kept L h (final_heap y)" if L: "L \<le> st" for L
      proof -
        have "kept L h (board_push lib h1 st m)"
          unfolding h1 by (rule kept_trans [OF kept_draws kept_push [OF L]])
        from kept_trans [OF this k [OF L]] show ?thesis .
      qed
      with n show ?thesis by simp
    qed
  qed
qed

lemma rollout_loop_frame:
  assumes "rollout_loop pol rnd lib h st = Some y"
  shows "nodes (final_heap y) = nodes h" and "L \<le> st \<Longrightarrow> kept L h (final_heap y)"
  using rollout_loop_frame_aux [OF assms] by simp_all

subsection \<open>Backpropagation\<close>

lemma score_ok_Update: "score_ok ns \<Longrightarrow> score_ok (ns[i := Update (ns ! i) r])"
  unfolding score_ok_def
proof (intro allI impI)
  fix j assume a: "\<forall>i<length ns. \<bar>wins (ns ! i)\<bar> \<le> real (visits (ns ! i))"
    and j: "j < length (ns[i := Update (ns ! i) r])"
  then have b: "\<bar>wins (ns ! j)\<bar> \<le> real (visits (ns ! j))" by simp
  show "\<bar>wins (ns[i := Update (ns ! i) r] ! j)\<bar> \<le> real (visits (ns[i := Update (ns ! i) r] ! j))"
  proof (cases "j = i")
    case True
    with j b show ?thesis by (simp add: Update_score_bound)
  next
    case False
    with b show ?thesis by simp
  qed
qed

lemma backprop_spec_aux:
  assumes "backprop lib h node st = Some h'"
  shows "boards h' = boards h \<and> draws h' = draws h \<and> same_shape (nodes h) (nodes h')
       \<and> (score_ok (nodes h) \<longrightarrow> score_ok (nodes h'))
       \<and> (parents_ok (nodes h) \<longrightarrow> (\<forall>i. node = Some i \<longrightarrow> i < length (nodes h))
            \<longrightarrow> visits (nodes h' ! 0) = visits (nodes h ! 0) + (case node of None \<Rightarrow> 0 | Some i \<Rightarrow> 1))"
proof (rule backprop.raw_induct
    [where P = "\<lambda>lib h node st h'. boards h' = boards h \<and> draws h' = draws h \<and> same_shape (nodes h) (nodes h')
       \<and> (score_ok (nodes h) \<longrightarrow> score_ok (nodes h'))
       \<and> (parents_ok (nodes h) \<longrightarrow> (\<forall>i. node = Some i \<longrightarrow> i < length (nodes h))
            \<longrightarrow> visits (nodes h' ! 0) = visits (nodes h ! 0) + (case node of None \<Rightarrow> 0 | Some i \<Rightarrow> 1))",
      OF _ assms])
  fix bp :: "('a, 'b) Board \<Rightarrow> ('a, 'b) heap \<Rightarrow> nat option \<Rightarrow> nat \<Rightarrow> ('a, 'b) heap option"
    and lib h node st h'
  assume IH: "\<And>lib' g node' st' g'. bp lib' g node' st' = Some g'
      \<Longrightarrow> boards g' = boards g \<and> draws g' = draws g \<and> same_shape (nodes g) (nodes g')
       \<and> (score_ok (nodes g) \<longrightarrow> score_ok (nodes g'))
       \<and> (parents_ok (nodes g) \<longrightarrow> (\<forall>i. node' = Some i \<longrightarrow> i < length (nodes g))
            \<longrightarrow> visits (nodes g' ! 0) = visits (nodes g ! 0) + (case node' of None \<Rightarrow> 0 | Some i \<Rightarrow> 1))"
    and step: "(case node of
        None \<Rightarrow> Some h
      | Some i \<Rightarrow>
          bp lib
            (h\<lparr>nodes := (nodes h)[i := Update (nodes h ! i) (result lib (boards h ! st))]\<rparr>)
            (parentNode (nodes h ! i)) st) = Some h'"
  show "boards h' = boards h \<and> draws h' = draws h \<and> same_shape (nodes h) (nodes h')
       \<and> (score_ok (nodes h) \<longrightarrow> score_ok (nodes h'))
       \<and> (parents_ok (nodes h) \<longrightarrow> (\<forall>i. node = Some i \<longrightarrow> i < length (nodes h))
            \<longrightarrow> visits (nodes h' ! 0) = visits (nodes h ! 0) + (case node of None \<Rightarrow> 0 | Some i \<Rightarrow> 1))"
  proof (cases node)
    case None
    with step show ?thesis by (simp add: same_shape_refl)
  next
    case (Some i)
    define r where "r = result lib (boards h ! st)"
    define g where "g = h\<lparr>nodes := (nodes h)[i := Update (nodes h ! i) r]\<rparr>"
    from step Some have rec: "bp lib g (parentNode (nodes h ! i)) st = Some h'"
      by (simp add: g_def r_def)
    note ih = IH [OF rec]
    have sh: "same_shape (nodes h) (nodes g)" by (simp add: g_def same_shape_Update)
    have b: "boards h' = boards h" "draws h' = draws h" using ih by (simp_all add: g_def)
    have s: "same_shape (nodes h) (nodes h')" using ih sh by (blast intro: same_shape_trans)
    have sc: "score_ok (nodes h) \<longrightarrow> score_ok (nodes h')"
      using ih by (auto simp: g_def score_ok_Update)
    have v: "visits (nodes h' ! 0) = visits (nodes h ! 0) + 1"
      if po: "parents_ok (nodes h)" and il: "i < length (nodes h)"
    proof -
      have pg: "parents_ok (nodes g)" by (rule parents_ok_shape [OF sh po])
      show ?thesis
      proof (cases "i = 0")
        case True
        with po have "parentNode (nodes h ! i) = None" by (simp add: parents_ok_def)
        with ih pg have "visits (nodes h' ! 0) = visits (nodes g ! 0)" by simp
        also have "\<dots> = visits (nodes h ! 0) + 1"
          using True il by (simp add: g_def Update_visits)
        finally show ?thesis .
      next
        case False
        with po il obtain p where p: "p < i" "parentNode (nodes h ! i) = Some p"
          by (auto simp: parents_ok_def)
        with il have "p < length (nodes g)" by (simp add: g_def)
        with ih pg p have "visits (nodes h' ! 0) = visits (nodes g ! 0) + 1" by simp
        also have "visits (nodes g ! 0) = visits (nodes h ! 0)"
          using False by (simp add: g_def)
        finally show ?thesis .
      qed
    qed
    from b s sc v Some show ?thesis by simp
  qed
qed

lemma backprop_spec:
  assumes "backprop lib h (Some i) st = Some h'"
  shows "boards h' = boards h" and "draws h' = draws h" and "same_shape (nodes h) (nodes h')"
    and "score_ok (nodes h) \<Longrightarrow> score_ok (nodes h')"
    and "parents_ok (nodes h) \<Longrightarrow> i < length (nodes h) \<Longrightarrow> visits (nodes h' ! 0) = visits (nodes h ! 0) + 1"
  using backprop_spec_aux [OF assms] by simp_all

subsection \<open>One iteration\<close>

lemma tree_inv_shape:
  "same_shape ns ns' \<Longrightarrow> score_ok ns' \<Longrightarrow> tree_inv lib rootpos ns \<Longrightarrow> tree_inv lib rootpos ns'"
  by (simp add: tree_inv_def parents_ok_shape children_ok_shape moves_ok_shape)

lemma tree_inv_root: "tree_inv lib rootpos [Node_init lib None None rootpos]"
proof -
  have "node_state lib rootpos [Node_init lib None None rootpos] 0 rootpos"
    by (rule node_state.at_root)
  then show ?thesis
    by (auto simp: tree_inv_def parents_ok_def children_ok_def score_ok_def moves_ok_def Node_init_def)
qed

lemma iteration_kept:
  assumes "iteration pick_plain pol rnd lib rootstate h = Some y"
  shows "take (length (boards h)) (boards (final_heap y)) = boards h"
    and "length (boards (final_heap y)) = Suc (length (boards h))"
proof -
  let ?st = "length (boards h)"
  let ?h0 = "h\<lparr>boards := boards h @ [boards h ! rootstate]\<rparr>"
  have k0: "take ?st (boards ?h0) = boards h" "length (boards ?h0) = Suc (length (boards h))"
    by simp_all
  have fin: "take ?st (boards g) = boards h \<and> length (boards g) = Suc (length (boards h))"
    if "kept ?st ?h0 g" for g
    using that k0 by (simp add: kept_def)
  from assms have it: "(case select_loop lib ?h0 0 ?st of
        None \<Rightarrow> None
      | Some (Inl e) \<Rightarrow> Some (Inl e)
      | Some (Inr (node, h1)) \<Rightarrow>
         (case expand pick_plain rnd lib h1 node ?st of
            Inl e \<Rightarrow> Some (Inl e)
          | Inr (node2, h2) \<Rightarrow>
             (case rollout_loop pol rnd lib h2 ?st of
                None \<Rightarrow> None
              | Some (Inl e) \<Rightarrow> Some (Inl e)
              | Some (Inr (u, h3)) \<Rightarrow>
                 (case backprop lib h3 (Some node2) ?st of
                    None \<Rightarrow> None
                  | Some h4 \<Rightarrow> Some (Inr ((), h4)))))) = Some y"
    by (simp add: iteration_def board_copy_def)
  then obtain y1 where s: "select_loop lib ?h0 0 ?st = Some y1" by (auto split: option.splits)
  note k1 = select_loop_frame(3) [OF s order_refl]
  have "kept ?st ?h0 (final_heap y)"
  proof (cases y1)
    case (Inl a)
    with it s have "y = Inl a" by (auto split: option.splits)
    with k1 Inl show ?thesis by (cases a) simp
  next
    case (Inr b)
    then obtain node h1 where b: "y1 = Inr (node, h1)" by (cases b) auto
    with k1 have k1': "kept ?st ?h0 h1" by simp
    show ?thesis
    proof (cases "expand pick_plain rnd lib h1 node ?st")
      case (Inl a)
      note k2 = kept_trans [OF k1' expand_plain_kept [OF Inl order_refl]]
      from it s b Inl have "y = Inl a" by (auto split: option.splits)
      with k2 show ?thesis by (cases a) simp
    next
      case (Inr c)
      note k2 = kept_trans [OF k1' expand_plain_kept [OF Inr order_refl]]
      obtain node2 h2 where c: "c = (node2, h2)" by (cases c)
      with k2 have k2': "kept ?st ?h0 h2" by simp
      note y2_def = Inr [unfolded c]
      from it s b c y2_def obtain y3 where r: "rollout_loop pol rnd lib h2 ?st = Some y3"
        by (auto split: option.splits)
      note k3 = kept_trans [OF k2' rollout_loop_frame(2) [OF r order_refl]]
      show ?thesis
      proof (cases y3)
        case (Inl a)
        with it s b c y2_def r have "y = Inl a" by (auto split: option.splits)
        with k3 Inl show ?thesis by (cases a) simp
      next
        case (Inr d)
        then obtain u h3 where d: "y3 = Inr (u, h3)" by (cases d) auto
        with k3 have k3': "kept ?st ?h0 h3" by simp
        from it s b c y2_def r d obtain h4 where bp: "backprop lib h3 (Some node2) ?st = Some h4"
          and y: "y = Inr ((), h4)"
          by (auto split: option.splits)
        from backprop_spec(1) [OF bp] k3' y show ?thesis by (simp add: kept_def)
      qed
    qed
  qed
  from fin [OF this] show "take (length (boards h)) (boards (final_heap y)) = boards h"
    and "length (boards (final_heap y)) = Suc (length (boards h))"
    by simp_all
qed

lemma iteration_spec:
  assumes it: "iteration pick_plain pol rnd lib rootstate h = Some (Inr (u, h'))"
    and rs: "rootstate < length (boards h)"
    and inv: "tree_inv lib (boards h ! rootstate) (nodes h)"
  shows "tree_inv lib (boards h ! rootstate) (nodes h')"
    and "visits (nodes h' ! 0) = visits (nodes h ! 0) + 1"
proof -
  define rootpos where "rootpos = boards h ! rootstate"
  let ?st = "length (boards h)"
  let ?h0 = "h\<lparr>boards := boards h @ [boards h ! rootstate]\<rparr>"
  from inv have po: "parents_ok (nodes h)" and ch: "children_ok (nodes h)"
    and sc: "score_ok (nodes h)" and mv: "moves_ok lib rootpos (nodes h)"
    by (simp_all add: tree_inv_def rootpos_def)
  from it obtain node h1 node2 h2 u3 h3 where
    s: "select_loop lib ?h0 0 ?st = Some (Inr (node, h1))"
    and e: "expand pick_plain rnd lib h1 node ?st = Inr (node2, h2)"
    and r: "rollout_loop pol rnd lib h2 ?st = Some (Inr (u3, h3))"
    and bp: "backprop lib h3 (Some node2) ?st = Some h'"
    by (auto simp: iteration_def board_copy_def
        split: option.splits sum.splits prod.splits)
  have n0: "nodes ?h0 = nodes h" and b0: "boards ?h0 ! ?st = rootpos" "?st < length (boards ?h0)"
    by (simp_all add: rootpos_def)
  have ne: "0 < length (nodes h)" using po by (simp add: parents_ok_def)
  have n1: "nodes h1 = nodes h" using select_loop_frame(1) [OF s] n0 by simp
  have st1: "?st < length (boards h1)"
    using select_loop_frame(3) [OF s order_refl] b0(2) by (simp add: kept_def)
  have root0: "node_state lib rootpos (nodes ?h0) 0 (boards ?h0 ! ?st)"
    unfolding b0(1) by (rule node_state.at_root)
  from select_loop_node(1,2) [OF s _ _ b0(2) root0] ch ne n0
  have nl: "node < length (nodes h)" and nst: "node_state lib rootpos (nodes h) node (boards h1 ! ?st)"
    by simp_all
  have inv2: "tree_inv lib rootpos (nodes h2) \<and> node2 < length (nodes h2)
      \<and> visits (nodes h2 ! 0) = visits (nodes h ! 0)"
  proof -
    from expand_plain_Inr [OF e st1]
    show ?thesis
    proof
      assume "untriedMoves (nodes h1 ! node) = [] \<and> node2 = node \<and> h2 = h1"
      with inv nl n1 show ?thesis by (simp add: rootpos_def)
    next
      assume "\<exists>m ns'. AddChild lib (nodes h1) node m (push lib (boards h1 ! ?st) m) = Inr (ns', node2)
             \<and> h2 = (board_push lib (h1\<lparr>draws := draws h1 + 1\<rparr>) ?st m)\<lparr>nodes := ns'\<rparr>"
      then obtain m ns' where
        ac: "AddChild lib (nodes h) node m (push lib (boards h1 ! ?st) m) = Inr (ns', node2)"
        and h2: "nodes h2 = ns'"
        by (auto simp: n1)
      note nth = AddChild_nth [OF ac nl]
      have "tree_inv lib rootpos ns'"
        unfolding tree_inv_def
        using AddChild_parents_ok [OF ac nl po] AddChild_children_ok [OF ac nl ch]
          AddChild_score_ok [OF ac nl sc] AddChild_moves_ok [OF ac nl ch mv nst refl]
        by simp
      moreover have "node2 < length ns'" using AddChild_Inr(1) [OF ac nl] nth(1) by simp
      moreover have "visits (ns' ! 0) = visits (nodes h ! 0)" using nth(5) [OF ne] by simp
      ultimately show ?thesis using h2 by simp
    qed
  qed
  have n3: "nodes h3 = nodes h2" using rollout_loop_frame(1) [OF r] by simp
  from inv2 n3 have po3: "parents_ok (nodes h3)" and sc3: "score_ok (nodes h3)"
    and i3: "tree_inv lib rootpos (nodes h3)" and l3: "node2 < length (nodes h3)"
    by (simp_all add: tree_inv_def)
  note bs = backprop_spec [OF bp]
  show "tree_inv lib (boards h ! rootstate) (nodes h')"
    using tree_inv_shape [OF bs(3) bs(4) [OF sc3] i3] by (simp add: rootpos_def)
  show "visits (nodes h' ! 0) = visits (nodes h ! 0) + 1"
    using bs(5) [OF po3 l3] inv2 n3 by simp
qed

subsection \<open>The search loop\<close>

lemma UCT_loop_kept:
  "UCT_loop pick_plain pol rnd lib rootstate k h = Some y
   \<Longrightarrow> take (length (boards h)) (boards (final_heap y)) = boards h"
proof (induction k arbitrary: h)
  case 0
  then show ?case by auto
next
  case (Suc k)
  from Suc.prems obtain y1 where it: "iteration pick_plain pol rnd lib rootstate h = Some y1"
    by (auto split: option.splits)
  note k1 = iteration_kept [OF it]
  show ?case
  proof (cases y1)
    case (Inl a)
    with Suc.prems it have "y = y1" by simp
    with k1 show ?thesis by simp
  next
    case (Inr b)
    obtain u h1 where b: "b = (u, h1)" by (cases b)
    with Inr Suc.prems it have "UCT_loop pick_plain pol rnd lib rootstate k h1 = Some y" by simp
    from Suc.IH [OF this] have "take (length (boards h1)) (boards (final_heap y)) = boards h1" .
    then have "take (length (boards h)) (take (length (boards h1)) (boards (final_heap y)))
        = take (length (boards h)) (boards h1)" by simp
    moreover have "length (boards h) \<le> length (boards h1)" using k1(2) Inr b by simp
    ultimately have "take (length (boards h)) (boards (final_heap y)) = take (length (boards h)) (boards h1)"
      by (simp add: min_def)
    with k1(1) Inr b show ?thesis by simp
  qed
qed

lemma UCT_loop_spec:
  assumes "UCT_loop pick_plain pol rnd lib rootstate k h = Some (Inr (u, h'))"
    and "rootstate < length (boards h)"
    and "tree_inv lib (boards h ! rootstate) (nodes h)"
  shows "tree_inv lib (boards h ! rootstate) (nodes h') \<and> visits (nodes h' ! 0) = visits (nodes h ! 0) + k"
  using assms
proof (induction k arbitrary: h)
  case 0
  then show ?case by simp
next
  case (Suc k)
  from Suc.prems(1) obtain u1 h1 where it: "iteration pick_plain pol rnd lib rootstate h = Some (Inr (u1, h1))"
    and rest: "UCT_loop pick_plain pol rnd lib rootstate k h1 = Some (Inr (u, h'))"
    by (auto split: option.splits sum.splits)
  note sp = iteration_spec [OF it Suc.prems(2,3)]
  from iteration_kept [OF it] have k1: "take (length (boards h)) (boards h1) = boards h"
    and l1: "length (boards h1) = Suc (length (boards h))" by simp_all
  have "boards h1 ! rootstate = take (length (boards h)) (boards h1) ! rootstate"
    using Suc.prems(2) by simp
  then have same: "boards h1 ! rootstate = boards h ! rootstate" using k1 by simp
  have rs1: "rootstate < length (boards h1)" using l1 Suc.prems(2) by simp
  from Suc.IH [OF rest rs1] sp same show ?case by simp
qed

lemma root_heap_fields:
  "boards (root_heap lib h rootstate) = boards h"
  "nodes (root_heap lib h rootstate) = [Node_init lib None None (boards h ! rootstate)]"
  by (simp_all add: root_heap_def)

lemma UCT_search_spec:
  assumes "UCT_loop pick_plain pol rnd lib rootstate k (root_heap lib h rootstate) = Some (Inr (u, h'))"
    and "rootstate < length (boards h)"
  shows "tree_inv lib (boards h ! rootstate) (nodes h')" and "visits (nodes h' ! 0) = k"
proof -
  have "tree_inv lib (boards (root_heap lib h rootstate) ! rootstate) (nodes (root_heap lib h rootstate))"
    by (simp add: root_heap_fields tree_inv_root)
  moreover have "rootstate < length (boards (root_heap lib h rootstate))"
    using assms(2) by (simp add: root_heap_fields)
  ultimately have "tree_inv lib (boards (root_heap lib h rootstate) ! rootstate) (nodes h')
      \<and> visits (nodes h' ! 0) = visits (nodes (root_heap lib h rootstate) ! 0) + k"
    by (rule UCT_loop_spec [OF assms(1), rotated 1])
  then show "tree_inv lib (boards h ! rootstate) (nodes h')" and "visits (nodes h' ! 0) = k"
    by (simp_all add: root_heap_fields Node_init_def)
qed

lemma UCT_gen_Inr:
  assumes "UCT_gen pick pol rnd lib h rootstate n = Some (Inr (mv, h'))"
  shows "\<exists>u c. UCT_loop pick pol rnd lib rootstate n (root_heap lib h rootstate) = Some (Inr (u, h'))
      \<and> sorted_last (\<lambda>c. visits (nodes h' ! c)) (childNodes (nodes h' ! 0)) = Inr c
      \<and> mv = move (nodes h' ! c)"
  using assms by (auto simp: UCT_gen_def split: option.splits sum.splits)

lemma node_state_unique:
  assumes po: "parents_ok ns" and a: "node_state lib rootpos ns i s" and b: "node_state lib rootpos ns i s'"
  shows "s' = s"
  using a b
proof (induction arbitrary: s' rule: node_state.induct)
  case at_root
  from at_root show ?case
  proof (cases rule: node_state.cases)
    case at_root
    then show ?thesis by simp
  next
    case (at_child p t m)
    with po show ?thesis by (simp add: parents_ok_def)
  qed
next
  case (at_child p s c m)
  from at_child.prems show ?case
  proof (cases rule: node_state.cases)
    case at_root
    with at_child.hyps po show ?thesis by (simp add: parents_ok_def)
  next
    case (at_child p' t m')
    with at_child.hyps have "p' = p" "m' = m" by simp_all
    with at_child.IH at_child(1,2) show ?thesis by simp
  qed
qed

lemma root_has_moves:
  assumes po: "parents_ok ns" and mv: "moves_ok lib rootpos ns" and lg: "legal_moves lib rootpos \<noteq> []"
  shows "untriedMoves (ns ! 0) \<noteq> [] \<or> childNodes (ns ! 0) \<noteq> []"
proof -
  from po have "0 < length ns" by (simp add: parents_ok_def)
  with mv obtain s where s: "node_state lib rootpos ns 0 s"
    and eq: "mset (map Some (untriedMoves (ns ! 0))) + mset (map (\<lambda>c. move (ns ! c)) (childNodes (ns ! 0)))
          = mset (map Some (legal_moves lib s))"
    unfolding moves_ok_def by blast
  have "s = rootpos" by (rule node_state_unique [OF po node_state.at_root s])
  with eq lg show ?thesis by auto
qed

lemma iteration_root_child:
  assumes it: "iteration pick_plain pol rnd lib rootstate h = Some (Inr (u, h'))"
    and inv: "tree_inv lib (boards h ! rootstate) (nodes h)"
    and lg: "legal_moves lib (boards h ! rootstate) \<noteq> []"
  shows "childNodes (nodes h' ! 0) \<noteq> []"
proof -
  let ?st = "length (boards h)"
  let ?h0 = "h\<lparr>boards := boards h @ [boards h ! rootstate]\<rparr>"
  from inv have po: "parents_ok (nodes h)" and ch: "children_ok (nodes h)"
    and mv: "moves_ok lib (boards h ! rootstate) (nodes h)"
    by (simp_all add: tree_inv_def)
  from it obtain node h1 node2 h2 u3 h3 where
    s: "select_loop lib ?h0 0 ?st = Some (Inr (node, h1))"
    and e: "expand pick_plain rnd lib h1 node ?st = Inr (node2, h2)"
    and r: "rollout_loop pol rnd lib h2 ?st = Some (Inr (u3, h3))"
    and bp: "backprop lib h3 (Some node2) ?st = Some h'"
    by (auto simp: iteration_def board_copy_def
        split: option.splits sum.splits prod.splits)
  have ne: "0 < length (nodes h)" using po by (simp add: parents_ok_def)
  have n1: "nodes h1 = nodes h" using select_loop_frame(1) [OF s] by simp
  have st1: "?st < length (boards h1)"
    using select_loop_frame(3) [OF s order_refl] by (simp add: kept_def)
  have root0: "node_state lib (boards h ! rootstate) (nodes ?h0) 0 (boards ?h0 ! ?st)"
    using node_state.at_root [of lib "boards h ! rootstate" "nodes ?h0"] by simp
  from select_loop_node(1) [OF s _ _ _ root0] ch ne
  have nl: "node < length (nodes h)" by simp
  have c2: "childNodes (nodes h2 ! 0) \<noteq> [] \<and> length (nodes h) \<le> length (nodes h2)"
  proof (cases "childNodes (nodes h ! 0) = []")
    case True
    with root_has_moves [OF po mv lg] have ut: "untriedMoves (nodes h ! 0) \<noteq> []" by simp
    with s have "node = 0" by (subst (asm) select_loop.simps) simp
    with expand_plain_Inr [OF e st1] ut n1 obtain m ns' where
      ac: "AddChild lib (nodes h) 0 m (push lib (boards h1 ! ?st) m) = Inr (ns', node2)"
      and h2: "nodes h2 = ns'" by auto
    from AddChild_nth(1,3) [OF ac ne] h2 show ?thesis by simp
  next
    case False
    from expand_plain_Inr [OF e st1] show ?thesis
    proof
      assume "untriedMoves (nodes h1 ! node) = [] \<and> node2 = node \<and> h2 = h1"
      with False n1 show ?thesis by simp
    next
      assume "\<exists>m ns'. AddChild lib (nodes h1) node m (push lib (boards h1 ! ?st) m) = Inr (ns', node2)
             \<and> h2 = (board_push lib (h1\<lparr>draws := draws h1 + 1\<rparr>) ?st m)\<lparr>nodes := ns'\<rparr>"
      then obtain m ns' where
        ac: "AddChild lib (nodes h) node m (push lib (boards h1 ! ?st) m) = Inr (ns', node2)"
        and h2: "nodes h2 = ns'"
        by (auto simp: n1)
      note nth = AddChild_nth [OF ac nl]
      show ?thesis
      proof (cases "node = 0")
        case True
        with nth(1,3) h2 show ?thesis by simp
      next
        case n0: False
        with nth(4) [OF ne] nth(1) h2 False show ?thesis by simp
      qed
    qed
  qed
  have n3: "nodes h3 = nodes h2" using rollout_loop_frame(1) [OF r] by simp
  have "0 < length (nodes h3)" using c2 ne n3 by (cases "nodes h2") auto
  with backprop_spec(3) [OF bp] have "childNodes (nodes h' ! 0) = childNodes (nodes h3 ! 0)"
    unfolding same_shape_def by blast
  with c2 n3 show ?thesis by simp
qed

lemma UCT_loop_root_child:
  assumes "UCT_loop pick_plain pol rnd lib rootstate k h = Some (Inr (u, h'))"
    and "rootstate < length (boards h)"
    and "tree_inv lib (boards h ! rootstate) (nodes h)"
    and "legal_moves lib (boards h ! rootstate) \<noteq> []"
    and "0 < k \<or> childNodes (nodes h ! 0) \<noteq> []"
  shows "childNodes (nodes h' ! 0) \<noteq> []"
  using assms
proof (induction k arbitrary: h)
  case 0
  then show ?case by simp
next
  case (Suc k)
  from Suc.prems(1) obtain u1 h1 where it: "iteration pick_plain pol rnd lib rootstate h = Some (Inr (u1, h1))"
    and rest: "UCT_loop pick_plain pol rnd lib rootstate k h1 = Some (Inr (u, h'))"
    by (auto split: option.splits sum.splits)
  note sp = iteration_spec(1) [OF it Suc.prems(2,3)]
  note rc = iteration_root_child [OF it Suc.prems(3,4)]
  from iteration_kept [OF it] have k1: "take (length (boards h)) (boards h1) = boards h"
    and l1: "length (boards h1) = Suc (length (boards h))" by simp_all
  have "boards h1 ! rootstate = take (length (boards h)) (boards h1) ! rootstate"
    using Suc.prems(2) by simp
  then have same: "boards h1 ! rootstate = boards h ! rootstate" using k1 by simp
  have rs1: "rootstate < length (boards h1)" using l1 Suc.prems(2) by simp
  show ?case
    by (rule Suc.IH [OF rest rs1]) (simp_all add: same sp rc Suc.prems(4))
qed

subsection \<open>Visit counts in a search\<close>

text \<open>
  In the tree after any number of iterations, a node that has children has been visited,
  and so has each of its children: \<^verbatim>\<open>UCTSelectChild\<close> is called on such nodes only, so
  neither its division nor its logarithm raises in a search.
\<close>

lemma backprop_visits_aux:
  assumes "backprop lib h node st = Some h'"
  shows "(\<forall>j<length (nodes h). visits (nodes h ! j) \<le> visits (nodes h' ! j))
       \<and> (\<forall>i. node = Some i \<longrightarrow> i < length (nodes h) \<longrightarrow> 1 \<le> visits (nodes h' ! i))"
proof (rule backprop.raw_induct
    [where P = "\<lambda>lib h node st h'. (\<forall>j<length (nodes h). visits (nodes h ! j) \<le> visits (nodes h' ! j))
       \<and> (\<forall>i. node = Some i \<longrightarrow> i < length (nodes h) \<longrightarrow> 1 \<le> visits (nodes h' ! i))",
      OF _ assms])
  fix bp :: "('a, 'b) Board \<Rightarrow> ('a, 'b) heap \<Rightarrow> nat option \<Rightarrow> nat \<Rightarrow> ('a, 'b) heap option"
    and lib h node st h'
  assume IH: "\<And>lib' g node' st' g'. bp lib' g node' st' = Some g'
      \<Longrightarrow> (\<forall>j<length (nodes g). visits (nodes g ! j) \<le> visits (nodes g' ! j))
       \<and> (\<forall>i. node' = Some i \<longrightarrow> i < length (nodes g) \<longrightarrow> 1 \<le> visits (nodes g' ! i))"
    and step: "(case node of
        None \<Rightarrow> Some h
      | Some i \<Rightarrow>
          bp lib
            (h\<lparr>nodes := (nodes h)[i := Update (nodes h ! i) (result lib (boards h ! st))]\<rparr>)
            (parentNode (nodes h ! i)) st) = Some h'"
  show "(\<forall>j<length (nodes h). visits (nodes h ! j) \<le> visits (nodes h' ! j))
       \<and> (\<forall>i. node = Some i \<longrightarrow> i < length (nodes h) \<longrightarrow> 1 \<le> visits (nodes h' ! i))"
  proof (cases node)
    case None
    with step show ?thesis by simp
  next
    case (Some i)
    define g where "g = h\<lparr>nodes := (nodes h)[i := Update (nodes h ! i) (result lib (boards h ! st))]\<rparr>"
    from step Some have rec: "bp lib g (parentNode (nodes h ! i)) st = Some h'"
      by (simp add: g_def)
    from IH [OF rec] have mono: "\<And>j. j < length (nodes h) \<Longrightarrow> visits (nodes g ! j) \<le> visits (nodes h' ! j)"
      by (simp add: g_def)
    have up: "visits (nodes h ! j) \<le> visits (nodes g ! j)" if "j < length (nodes h)" for j
      using that by (cases "j = i") (simp_all add: g_def Update_visits)
    have a: "\<forall>j<length (nodes h). visits (nodes h ! j) \<le> visits (nodes h' ! j)"
      using up mono by (meson order_trans)
    have "1 \<le> visits (nodes h' ! i)" if il: "i < length (nodes h)"
    proof -
      have "1 \<le> visits (nodes g ! i)" using il by (simp add: g_def Update_visits)
      with mono [OF il] show ?thesis by simp
    qed
    with a Some show ?thesis by simp
  qed
qed

lemma backprop_visits:
  assumes "backprop lib h (Some i) st = Some h'"
  shows "j < length (nodes h) \<Longrightarrow> visits (nodes h ! j) \<le> visits (nodes h' ! j)"
    and "i < length (nodes h) \<Longrightarrow> 1 \<le> visits (nodes h' ! i)"
  using backprop_visits_aux [OF assms] by simp_all

lemma iteration_visited:
  assumes it: "iteration pick_plain pol rnd lib rootstate h = Some (Inr (u, h'))"
    and rs: "rootstate < length (boards h)"
    and inv: "tree_inv lib (boards h ! rootstate) (nodes h)"
    and vis: "visited_ok (nodes h)"
  shows "visited_ok (nodes h')"
proof -
  let ?st = "length (boards h)"
  let ?h0 = "h\<lparr>boards := boards h @ [boards h ! rootstate]\<rparr>"
  from inv have po: "parents_ok (nodes h)" and ch: "children_ok (nodes h)"
    by (simp_all add: tree_inv_def)
  from it obtain node h1 node2 h2 u3 h3 where
    s: "select_loop lib ?h0 0 ?st = Some (Inr (node, h1))"
    and e: "expand pick_plain rnd lib h1 node ?st = Inr (node2, h2)"
    and r: "rollout_loop pol rnd lib h2 ?st = Some (Inr (u3, h3))"
    and bp: "backprop lib h3 (Some node2) ?st = Some h'"
    by (auto simp: iteration_def board_copy_def
        split: option.splits sum.splits prod.splits)
  have ne: "0 < length (nodes h)" using po by (simp add: parents_ok_def)
  have n1: "nodes h1 = nodes h" using select_loop_frame(1) [OF s] by simp
  have st1: "?st < length (boards h1)"
    using select_loop_frame(3) [OF s order_refl] by (simp add: kept_def)
  have root0: "node_state lib (boards h ! rootstate) (nodes ?h0) 0 (boards ?h0 ! ?st)"
    using node_state.at_root [of lib "boards h ! rootstate" "nodes ?h0"] by simp
  from select_loop_node(1) [OF s _ _ _ root0] ch ne
  have nl: "node < length (nodes h)" by simp
  have v2: "node2 < length (nodes h2) \<and> length (nodes h) \<le> length (nodes h2)
      \<and> (\<forall>i<length (nodes h2). 0 < i \<longrightarrow> i \<noteq> node2 \<longrightarrow> 1 \<le> visits (nodes h2 ! i))"
  proof -
    from expand_plain_Inr [OF e st1] show ?thesis
    proof
      assume "untriedMoves (nodes h1 ! node) = [] \<and> node2 = node \<and> h2 = h1"
      with vis nl n1 show ?thesis by (simp add: visited_ok_def)
    next
      assume "\<exists>m ns'. AddChild lib (nodes h1) node m (push lib (boards h1 ! ?st) m) = Inr (ns', node2)
             \<and> h2 = (board_push lib (h1\<lparr>draws := draws h1 + 1\<rparr>) ?st m)\<lparr>nodes := ns'\<rparr>"
      then obtain m ns' where
        ac: "AddChild lib (nodes h) node m (push lib (boards h1 ! ?st) m) = Inr (ns', node2)"
        and h2: "nodes h2 = ns'"
        by (auto simp: n1)
      note nth = AddChild_nth [OF ac nl]
      note inr = AddChild_Inr [OF ac nl]
      have "1 \<le> visits (ns' ! i)" if i: "i < length ns'" "0 < i" "i \<noteq> node2" for i
      proof -
        from i inr(1) nth(1) have il: "i < length (nodes h)" by simp
        with vis i(2) have "1 \<le> visits (nodes h ! i)" by (simp add: visited_ok_def)
        with nth(5) [OF il] show ?thesis by simp
      qed
      with inr(1) nth(1) h2 show ?thesis by simp
    qed
  qed
  have n3: "nodes h3 = nodes h2" using rollout_loop_frame(1) [OF r] by simp
  note bv = backprop_visits [OF bp]
  note bs = backprop_spec [OF bp]
  have len: "length (nodes h') = length (nodes h3)" using bs(3) by (simp add: same_shape_def)
  have one: "1 \<le> visits (nodes h' ! i)" if i: "i < length (nodes h')" "0 < i" for i
  proof (cases "i = node2")
    case True
    with bv(2) v2 n3 show ?thesis by simp
  next
    case False
    with v2 i len n3 have "1 \<le> visits (nodes h3 ! i)" by simp
    moreover have "visits (nodes h3 ! i) \<le> visits (nodes h' ! i)"
      using bv(1) i len by simp
    ultimately show ?thesis by simp
  qed
  have "visits (nodes h' ! 0) = visits (nodes h ! 0) + 1"
    by (rule iteration_spec(2) [OF it rs inv])
  then have "1 \<le> visits (nodes h' ! 0)" by simp
  with one show ?thesis by (simp add: visited_ok_def)
qed

lemma UCT_loop_visited:
  assumes "UCT_loop pick_plain pol rnd lib rootstate k h = Some (Inr (u, h'))"
    and "rootstate < length (boards h)"
    and "tree_inv lib (boards h ! rootstate) (nodes h)"
    and "visited_ok (nodes h)"
  shows "visited_ok (nodes h')"
  using assms
proof (induction k arbitrary: h)
  case 0
  then show ?case by simp
next
  case (Suc k)
  from Suc.prems(1) obtain u1 h1 where it: "iteration pick_plain pol rnd lib rootstate h = Some (Inr (u1, h1))"
    and rest: "UCT_loop pick_plain pol rnd lib rootstate k h1 = Some (Inr (u, h'))"
    by (auto split: option.splits sum.splits)
  note sp = iteration_spec(1) [OF it Suc.prems(2,3)]
  note vs = iteration_visited [OF it Suc.prems(2,3,4)]
  from iteration_kept [OF it] have k1: "take (length (boards h)) (boards h1) = boards h"
    and l1: "length (boards h1) = Suc (length (boards h))" by simp_all
  have "boards h1 ! rootstate = take (length (boards h)) (boards h1) ! rootstate"
    using Suc.prems(2) by simp
  then have same: "boards h1 ! rootstate = boards h ! rootstate" using k1 by simp
  have rs1: "rootstate < length (boards h1)" using l1 Suc.prems(2) by simp
  show ?case
    by (rule Suc.IH [OF rest rs1]) (simp_all add: same sp vs)
qed

lemma search_nodes_visited:
  assumes loop: "UCT_loop pick_plain pol rnd lib rootstate k (root_heap lib h rootstate) = Some (Inr (u, h'))"
    and rs: "rootstate < length (boards h)"
    and i: "i < length (nodes h')"
    and c: "childNodes (nodes h' ! i) \<noteq> []"
  shows "1 \<le> visits (nodes h' ! i)"
    and "\<forall>c\<in>set (childNodes (nodes h' ! i)). 1 \<le> visits (nodes h' ! c)"
proof -
  have inv0: "tree_inv lib (boards (root_heap lib h rootstate) ! rootstate) (nodes (root_heap lib h rootstate))"
    by (simp add: root_heap_fields tree_inv_root)
  have rs0: "rootstate < length (boards (root_heap lib h rootstate))"
    using rs by (simp add: root_heap_fields)
  have v0: "visited_ok (nodes (root_heap lib h rootstate))"
    by (simp add: root_heap_fields visited_ok_def Node_init_def)
  note vis = UCT_loop_visited [OF loop rs0 inv0 v0]
  from UCT_search_spec(1) [OF loop rs]
  have po: "parents_ok (nodes h')" and ch: "children_ok (nodes h')"
    by (simp_all add: tree_inv_def)
  show "1 \<le> visits (nodes h' ! i)"
    using vis i c by (cases "i = 0") (simp_all add: visited_ok_def)
  show "\<forall>c\<in>set (childNodes (nodes h' ! i)). 1 \<le> visits (nodes h' ! c)"
  proof
    fix d assume "d \<in> set (childNodes (nodes h' ! i))"
    with ch i have d: "d < length (nodes h')" "parentNode (nodes h' ! d) = Some i"
      by (simp_all add: children_ok_def)
    with po have "d \<noteq> 0" by (auto simp: parents_ok_def)
    with vis d(1) show "1 \<le> visits (nodes h' ! d)" by (simp add: visited_ok_def)
  qed
qed

subsection \<open>Termination\<close>

text \<open>
  On a finite game every loop of \<^verbatim>\<open>UCT\<close> ends and no statement raises: the selection
  descends to a child of greater index, the simulation lowers the rank of the working
  board, the backpropagation climbs to a parent of smaller index.
\<close>

lemma sorted_last_Inr: "xs \<noteq> [] \<Longrightarrow> \<exists>c. sorted_last f xs = Inr c"
  using sorted_last_spec [of xs f] by blast

lemma node_state_move:
  assumes "node_state lib rootpos ns c s" and "0 < c"
  shows "\<exists>m. move (ns ! c) = Some m"
  using assms by (cases rule: node_state.cases) auto

lemma select_child_ok:
  assumes inv: "tree_inv lib rootpos ns" and vis: "visited_ok ns"
    and i: "i < length ns" and c: "childNodes (ns ! i) \<noteq> []"
  shows "\<exists>c m. UCTSelectChild lib ns i = Inr c \<and> i < c \<and> c < length ns \<and> move (ns ! c) = Some m"
proof -
  from inv have po: "parents_ok ns" and ch: "children_ok ns" and mv: "moves_ok lib rootpos ns"
    by (simp_all add: tree_inv_def)
  have kid: "d < length ns \<and> parentNode (ns ! d) = Some i \<and> 0 < d \<and> i < d"
    if "d \<in> set (childNodes (ns ! i))" for d
  proof -
    from ch i that have d: "d < length ns" "parentNode (ns ! d) = Some i"
      by (simp_all add: children_ok_def)
    with po have "0 < d" by (cases "d = 0") (simp_all add: parents_ok_def)
    with po d obtain p where "p < d" "parentNode (ns ! d) = Some p" by (auto simp: parents_ok_def)
    with d show ?thesis using \<open>0 < d\<close> by simp
  qed
  have vi: "1 \<le> visits (ns ! i)"
    using vis i c by (cases "i = 0") (simp_all add: visited_ok_def)
  have "\<forall>d\<in>set (childNodes (ns ! i)). key_error (ns ! i) (ns ! d) = None"
  proof
    fix d assume "d \<in> set (childNodes (ns ! i))"
    from kid [OF this] vis have "1 \<le> visits (ns ! d)" by (simp add: visited_ok_def)
    with vi show "key_error (ns ! i) (ns ! d) = None" by (simp add: key_error_def)
  qed
  then have "first_error (\<lambda>d. key_error (ns ! i) (ns ! d)) (childNodes (ns ! i)) = None"
    by (rule first_error_None)
  then have sel: "UCTSelectChild lib ns i = sorted_last (\<lambda>d. uct_key lib (ns ! i) (ns ! d)) (childNodes (ns ! i))"
    by (simp add: UCTSelectChild_def)
  from sorted_last_Inr [OF c] obtain d where d: "UCTSelectChild lib ns i = Inr d"
    unfolding sel by blast
  note k = kid [OF UCTSelectChild_mem [OF d]]
  from mv k obtain s where "node_state lib rootpos ns d s" unfolding moves_ok_def by blast
  from node_state_move [OF this] k obtain m where "move (ns ! d) = Some m" by blast
  with d k show ?thesis by blast
qed

lemma select_loop_total:
  assumes "tree_inv lib rootpos (nodes h)" and "visited_ok (nodes h)" and "node < length (nodes h)"
  shows "\<exists>node' h'. select_loop lib h node st = Some (Inr (node', h'))"
  using assms
proof (induction "length (nodes h) - node" arbitrary: node h rule: less_induct)
  case less
  show ?case
  proof (cases "untriedMoves (nodes h ! node) = [] \<and> childNodes (nodes h ! node) \<noteq> []")
    case False
    then show ?thesis by (subst select_loop.simps) auto
  next
    case True
    from select_child_ok [OF less.prems(1,2,3)] True obtain c m where
      c: "UCTSelectChild lib (nodes h) node = Inr c" "node < c" "c < length (nodes h)"
        "move (nodes h ! c) = Some m" by blast
    let ?h1 = "board_push lib h st m"
    have n1: "nodes ?h1 = nodes h" by (simp add: board_push_fields)
    have "length (nodes ?h1) - c < length (nodes h) - node" using c(2,3) n1 by simp
    from less.hyps [OF this] less.prems(1,2) c(3) n1
    obtain node' h' where "select_loop lib ?h1 c st = Some (Inr (node', h'))" by auto
    with True c show ?thesis by (subst select_loop.simps) simp
  qed
qed

lemma backprop_total:
  assumes "parents_ok (nodes h)" and "i < length (nodes h)"
  shows "\<exists>h'. backprop lib h (Some i) st = Some h'"
  using assms
proof (induction i arbitrary: h rule: less_induct)
  case (less i)
  let ?g = "h\<lparr>nodes := (nodes h)[i := Update (nodes h ! i) (result lib (boards h ! st))]\<rparr>"
  have sh: "same_shape (nodes h) (nodes ?g)" by (simp add: same_shape_Update)
  have pg: "parents_ok (nodes ?g)" by (rule parents_ok_shape [OF sh less.prems(1)])
  show ?case
  proof (cases "i = 0")
    case True
    with less.prems(1) have "parentNode (nodes h ! i) = None" by (simp add: parents_ok_def)
    then show ?thesis
      by (subst backprop.simps) (simp, subst backprop.simps, simp)
  next
    case False
    with less.prems obtain p where p: "p < i" "parentNode (nodes h ! i) = Some p"
      by (auto simp: parents_ok_def)
    with less.prems(2) have "p < length (nodes ?g)" by simp
    from less.IH [OF p(1) pg this] obtain h' where "backprop lib ?g (Some p) st = Some h'" by blast
    with p(2) show ?thesis by (subst backprop.simps) simp
  qed
qed

lemma dict_add_keys: "map fst (dict_add k d w) = map fst w"
  by (induction w) (auto simp: dict_add_def)

lemma fold_dict_add_keys: "map fst (fold (\<lambda>m w. dict_add m (a m) w) ms w) = map fst w"
  by (induction ms arbitrary: w) (simp_all add: dict_add_keys)

lemma weights_of_keys: "map fst (weights_of adj lib b) = rev (remdups (rev (legal_moves lib b)))"
  by (simp add: weights_of_def fold_dict_add_keys dict_init_def comp_def)

lemma policy_sample:
  assumes "legal_moves lib b \<noteq> []"
  shows "\<exists>m. sample rnd h (policy adj lib b) = Inr (m, h\<lparr>draws := draws h + 1\<rparr>)
           \<and> m \<in> set (legal_moves lib b)"
proof -
  let ?ms = "map fst (weights_of adj lib b)"
  have s: "set ?ms = set (legal_moves lib b)" by (simp add: weights_of_keys)
  with assms have ne: "?ms \<noteq> []" by (metis set_empty)
  then have "?ms ! (rnd (draws h) mod length ?ms) \<in> set ?ms" by simp
  with s have m: "?ms ! (rnd (draws h) mod length ?ms) \<in> set (legal_moves lib b)" by blast
  show ?thesis
  proof (cases "sum_list (map snd (weights_of adj lib b)) = 0")
    case True
    then have "sample rnd h (policy adj lib b)
        = Inr (?ms ! (rnd (draws h) mod length ?ms), h\<lparr>draws := draws h + 1\<rparr>)"
      using ne by (simp add: policy_def sample_def random_choice_def Let_def)
    with m show ?thesis by blast
  next
    case False
    then have "sample rnd h (policy adj lib b)
        = Inr (?ms ! (rnd (draws h) mod length ?ms), h\<lparr>draws := draws h + 1\<rparr>)"
      using ne by (simp add: policy_def sample_def random_choices_def Let_def)
    with m show ?thesis by blast
  qed
qed

lemma rollout_loop_total:
  assumes "finite_game lib rank" and "st < length (boards h)"
  shows "\<exists>h'. rollout_loop (policy adj) rnd lib h st = Some (Inr ((), h'))"
  using assms(2)
proof (induction "rank (boards h ! st)" arbitrary: h rule: less_induct)
  case less
  show ?case
  proof (cases "is_game_over lib (boards h ! st)")
    case True
    then show ?thesis by (subst rollout_loop.simps) simp
  next
    case False
    with assms(1) have lg: "legal_moves lib (boards h ! st) \<noteq> []"
      and dec: "\<And>m. m \<in> set (legal_moves lib (boards h ! st))
          \<Longrightarrow> rank (push lib (boards h ! st) m) < rank (boards h ! st)"
      by (simp_all add: finite_game_def)
    from policy_sample [OF lg, of rnd h adj] obtain m where
      sm: "sample rnd h (policy adj lib (boards h ! st)) = Inr (m, h\<lparr>draws := draws h + 1\<rparr>)"
      and m: "m \<in> set (legal_moves lib (boards h ! st))" by blast
    let ?h1 = "board_push lib (h\<lparr>draws := draws h + 1\<rparr>) st m"
    have b1: "boards ?h1 ! st = push lib (boards h ! st) m" "st < length (boards ?h1)"
      using less.prems by (simp_all add: board_push_def)
    with dec [OF m] have "rank (boards ?h1 ! st) < rank (boards h ! st)" by simp
    from less.hyps [OF this b1(2)] obtain h' where
      "rollout_loop (policy adj) rnd lib ?h1 st = Some (Inr ((), h'))" by blast
    with False sm show ?thesis by (subst rollout_loop.simps) simp
  qed
qed

lemma expand_plain_total:
  assumes "node < length (nodes h)"
  shows "\<exists>n' h'. expand pick_plain rnd lib h node st = Inr (n', h')"
proof (cases "untriedMoves (nodes h ! node) = []")
  case True
  then show ?thesis by (simp add: expand_def)
next
  case False
  let ?u = "untriedMoves (nodes h ! node)"
  let ?m = "?u ! (rnd (draws h) mod length ?u)"
  have m: "?m \<in> set ?u" using False by simp
  have p: "pick_plain rnd h node = Inr (?m, h\<lparr>draws := draws h + 1\<rparr>)"
    using False by (simp add: pick_plain_def random_choice_def)
  have "\<exists>ns n. AddChild lib (nodes h) node ?m s = Inr (ns, n)" for s
    using m assms by (simp add: AddChild_def Let_def nth_append)
  then obtain ns n where
    "AddChild lib (nodes h) node ?m (boards (board_push lib (h\<lparr>draws := draws h + 1\<rparr>) st ?m) ! st)
       = Inr (ns, n)" by blast
  with False p show ?thesis by (simp add: expand_def Let_def board_push_fields)
qed

lemma iteration_total:
  assumes fin: "finite_game lib rank"
    and inv: "tree_inv lib (boards h ! rootstate) (nodes h)"
    and vis: "visited_ok (nodes h)"
  shows "\<exists>h'. iteration pick_plain (policy adj) rnd lib rootstate h = Some (Inr ((), h'))"
proof -
  let ?st = "length (boards h)"
  let ?h0 = "h\<lparr>boards := boards h @ [boards h ! rootstate]\<rparr>"
  from inv have po: "parents_ok (nodes h)" and ch: "children_ok (nodes h)"
    by (simp_all add: tree_inv_def)
  have ne: "0 < length (nodes h)" using po by (simp add: parents_ok_def)
  from select_loop_total [of lib "boards h ! rootstate" ?h0 0 ?st] inv vis ne
  obtain node h1 where s: "select_loop lib ?h0 0 ?st = Some (Inr (node, h1))" by auto
  have n1: "nodes h1 = nodes h" using select_loop_frame(1) [OF s] by simp
  have st1: "?st < length (boards h1)"
    using select_loop_frame(3) [OF s order_refl] by (simp add: kept_def)
  have root0: "node_state lib (boards h ! rootstate) (nodes ?h0) 0 (boards ?h0 ! ?st)"
    using node_state.at_root [of lib "boards h ! rootstate" "nodes ?h0"] by simp
  from select_loop_node(1) [OF s _ _ _ root0] ch ne
  have nl: "node < length (nodes h)" by simp
  from expand_plain_total [of node h1 rnd lib ?st] nl n1
  obtain node2 h2 where e: "expand pick_plain rnd lib h1 node ?st = Inr (node2, h2)" by auto
  have st2: "?st < length (boards h2)"
    using expand_plain_kept [OF e order_refl] st1 by (simp add: kept_def)
  have p2: "parents_ok (nodes h2) \<and> node2 < length (nodes h2)"
  proof -
    from expand_plain_Inr [OF e st1] show ?thesis
    proof
      assume "untriedMoves (nodes h1 ! node) = [] \<and> node2 = node \<and> h2 = h1"
      with po nl n1 show ?thesis by simp
    next
      assume "\<exists>m ns'. AddChild lib (nodes h1) node m (push lib (boards h1 ! ?st) m) = Inr (ns', node2)
             \<and> h2 = (board_push lib (h1\<lparr>draws := draws h1 + 1\<rparr>) ?st m)\<lparr>nodes := ns'\<rparr>"
      then obtain m ns' where
        ac: "AddChild lib (nodes h) node m (push lib (boards h1 ! ?st) m) = Inr (ns', node2)"
        and h2: "nodes h2 = ns'"
        by (auto simp: n1)
      from AddChild_parents_ok [OF ac nl po] AddChild_Inr(1) [OF ac nl] AddChild_nth(1) [OF ac nl] h2
      show ?thesis by simp
    qed
  qed
  from rollout_loop_total [OF fin st2] obtain h3 where
    r: "rollout_loop (policy adj) rnd lib h2 ?st = Some (Inr ((), h3))" by blast
  have n3: "nodes h3 = nodes h2" using rollout_loop_frame(1) [OF r] by simp
  from backprop_total [of h3 node2 lib ?st] p2 n3 obtain h4 where
    bp: "backprop lib h3 (Some node2) ?st = Some h4" by auto
  from s e r bp show ?thesis by (simp add: iteration_def board_copy_def)
qed

lemma UCT_loop_total:
  assumes "finite_game lib rank"
    and "rootstate < length (boards h)"
    and "tree_inv lib (boards h ! rootstate) (nodes h)"
    and "visited_ok (nodes h)"
  shows "\<exists>h'. UCT_loop pick_plain (policy adj) rnd lib rootstate k h = Some (Inr ((), h'))"
  using assms(2-)
proof (induction k arbitrary: h)
  case 0
  then show ?case by simp
next
  case (Suc k)
  from iteration_total [OF assms(1) Suc.prems(2,3)] obtain h1 where
    it: "iteration pick_plain (policy adj) rnd lib rootstate h = Some (Inr ((), h1))" by blast
  note sp = iteration_spec(1) [OF it Suc.prems(1,2)]
  note vs = iteration_visited [OF it Suc.prems(1,2,3)]
  from iteration_kept [OF it] have k1: "take (length (boards h)) (boards h1) = boards h"
    and l1: "length (boards h1) = Suc (length (boards h))" by simp_all
  have "boards h1 ! rootstate = take (length (boards h)) (boards h1) ! rootstate"
    using Suc.prems(1) by simp
  then have same: "boards h1 ! rootstate = boards h ! rootstate" using k1 by simp
  have rs1: "rootstate < length (boards h1)" using l1 Suc.prems(1) by simp
  have "\<exists>h'. UCT_loop pick_plain (policy adj) rnd lib rootstate k h1 = Some (Inr ((), h'))"
    by (rule Suc.IH [OF rs1]) (simp_all add: same sp vs)
  with it show ?case by simp
qed

lemma UCT_search_total:
  assumes "finite_game lib rank" and "rootstate < length (boards h)"
  shows "\<exists>h'. UCT_loop pick_plain (policy adj) rnd lib rootstate k (root_heap lib h rootstate)
           = Some (Inr ((), h'))"
proof (rule UCT_loop_total [OF assms(1)])
  show "rootstate < length (boards (root_heap lib h rootstate))"
    using assms(2) by (simp add: root_heap_fields)
  show "tree_inv lib (boards (root_heap lib h rootstate) ! rootstate) (nodes (root_heap lib h rootstate))"
    by (simp add: root_heap_fields tree_inv_root)
  show "visited_ok (nodes (root_heap lib h rootstate))"
    by (simp add: root_heap_fields visited_ok_def Node_init_def)
qed

subsection \<open>The search as a whole\<close>

lemma two_moves_loop:
  "UCT_loop pick_plain rollout_policy (\<lambda>k. k) two_moves 0 3 (root_heap two_moves heap0 0)
     = Some (Inr ((), final3))"
  by (simp add: rollout_policy_def run_simps toy_simps eval_nat_numeral final3_def)

lemma two_moves_UCT: "UCT (\<lambda>k. k) two_moves heap0 0 3 = Some (Inr (Some 7, final3))"
  by (simp add: UCT_def rollout_policy_def run_simps toy_simps eval_nat_numeral final3_def)

lemma two_moves_UCT_q: "UCT_q (\<lambda>k. k) two_moves heap0 0 3 = Some (Inr (Some 7, final3))"
  by (simp add: UCT_q_def rollout_policy_q_def quantum_selection_def run_simps toy_simps
      eval_nat_numeral final3_def)

text \<open>
  C4. Whenever \<^verbatim>\<open>UCT(rootstate, n)\<close> returns, the root node (node 0 of the store the search
  leaves) has \<open>visits = n\<close>: each iteration that runs to its end updates the root exactly
  once, at the end of its backpropagation.
\<close>

theorem UCT_root_visits:
  assumes "UCT rnd lib h rootstate n = Some (Inr (mv, h'))"
    and "rootstate < length (boards h)"
  shows "visits (nodes h' ! 0) = n"
proof -
  from UCT_gen_Inr [OF assms(1) [unfolded UCT_def]] obtain u where
    "UCT_loop pick_plain rollout_policy rnd lib rootstate n (root_heap lib h rootstate) = Some (Inr (u, h'))"
    by blast
  from UCT_search_spec(2) [OF this assms(2)] show ?thesis .
qed

theorem UCT_root_visits_witness:
  "UCT (\<lambda>k. k) two_moves heap0 0 3 = Some (Inr (Some 7, final3))
   \<and> 0 < length (boards heap0)
   \<and> visits (nodes final3 ! 0) = 3"
proof -
  have r: "0 < length (boards heap0)" by (simp add: heap0_def)
  from UCT_root_visits [OF two_moves_UCT r] two_moves_UCT r show ?thesis by simp
qed

lemma most_visited_if_completed:
  assumes "UCT_loop pick_plain rollout_policy rnd lib rootstate n (root_heap lib h rootstate)
             = Some (Inr (u, h'))"
    and "rootstate < length (boards h)"
    and "legal_moves lib (boards h ! rootstate) \<noteq> []"
    and "1 \<le> n"
  shows "\<exists>c pre post.
           UCT rnd lib h rootstate n = Some (Inr (move (nodes h' ! c), h'))
         \<and> childNodes (nodes h' ! 0) = pre @ c # post
         \<and> (\<forall>d\<in>set (childNodes (nodes h' ! 0)). visits (nodes h' ! d) \<le> visits (nodes h' ! c))
         \<and> (\<forall>d\<in>set post. visits (nodes h' ! d) < visits (nodes h' ! c))"
proof -
  have inv0: "tree_inv lib (boards (root_heap lib h rootstate) ! rootstate) (nodes (root_heap lib h rootstate))"
    by (simp add: root_heap_fields tree_inv_root)
  have ne: "childNodes (nodes h' ! 0) \<noteq> []"
    by (rule UCT_loop_root_child [OF assms(1) _ inv0])
      (use assms(2-4) in \<open>simp_all add: root_heap_fields\<close>)
  from sorted_last_spec [OF ne, of "\<lambda>c. visits (nodes h' ! c)"] obtain c pre post where
    sl: "sorted_last (\<lambda>c. visits (nodes h' ! c)) (childNodes (nodes h' ! 0)) = Inr c"
    and rest: "childNodes (nodes h' ! 0) = pre @ c # post"
      "\<forall>d\<in>set (childNodes (nodes h' ! 0)). visits (nodes h' ! d) \<le> visits (nodes h' ! c)"
      "\<forall>d\<in>set post. visits (nodes h' ! d) < visits (nodes h' ! c)"
    by blast
  have "UCT rnd lib h rootstate n = Some (Inr (move (nodes h' ! c), h'))"
    using assms(1) sl by (cases u) (simp add: UCT_def UCT_gen_def)
  with rest show ?thesis by blast
qed

text \<open>
  C6. On a finite game, for a root position that has a legal move and \<open>n \<ge> 1\<close>,
  \<^verbatim>\<open>UCT(rootstate, n)\<close> returns, and what it returns is the move of a child \<open>c\<close> of the
  root whose visit count is greatest among the root's children, every child created after
  \<open>c\<close> having a strictly smaller visit count.
\<close>

theorem UCT_returns_most_visited:
  assumes "finite_game lib rank"
    and "rootstate < length (boards h)"
    and "legal_moves lib (boards h ! rootstate) \<noteq> []"
    and "1 \<le> n"
  shows "\<exists>h' c pre post.
           UCT rnd lib h rootstate n = Some (Inr (move (nodes h' ! c), h'))
         \<and> childNodes (nodes h' ! 0) = pre @ c # post
         \<and> (\<forall>d\<in>set (childNodes (nodes h' ! 0)). visits (nodes h' ! d) \<le> visits (nodes h' ! c))
         \<and> (\<forall>d\<in>set post. visits (nodes h' ! d) < visits (nodes h' ! c))"
proof -
  from UCT_search_total [OF assms(1,2), of adjust rnd n] obtain h' where
    "UCT_loop pick_plain rollout_policy rnd lib rootstate n (root_heap lib h rootstate)
       = Some (Inr ((), h'))"
    unfolding rollout_policy_def by blast
  from most_visited_if_completed [OF this assms(2-4)] show ?thesis by blast
qed

lemma two_moves_finite: "finite_game two_moves (\<lambda>s. if s = 0 then 1 else 0)"
  by (simp add: finite_game_def toy_simps)

theorem UCT_returns_most_visited_witness:
  "finite_game two_moves (\<lambda>s. if s = 0 then 1 else 0)
   \<and> 0 < length (boards heap0)
   \<and> legal_moves two_moves (boards heap0 ! 0) \<noteq> []
   \<and> (1::nat) \<le> 3
   \<and> UCT (\<lambda>k. k) two_moves heap0 0 3 = Some (Inr (Some 7, final3))
   \<and> (\<exists>h' c pre post.
           UCT (\<lambda>k. k) two_moves heap0 0 3 = Some (Inr (move (nodes h' ! c), h'))
         \<and> childNodes (nodes h' ! 0) = pre @ c # post
         \<and> (\<forall>d\<in>set (childNodes (nodes h' ! 0)). visits (nodes h' ! d) \<le> visits (nodes h' ! c))
         \<and> (\<forall>d\<in>set post. visits (nodes h' ! d) < visits (nodes h' ! c)))"
proof -
  have a: "0 < length (boards heap0)" "legal_moves two_moves (boards heap0 ! 0) \<noteq> []" "(1::nat) \<le> 3"
    by (simp_all add: heap0_def toy_simps)
  from UCT_returns_most_visited [OF two_moves_finite a, of "\<lambda>k. k"] two_moves_finite two_moves_UCT a
  show ?thesis by blast
qed

text \<open>
  C7. After any number \<open>k\<close> of iterations of a search (under either rollout policy), every
  node \<open>i\<close> of the tree stands for exactly one position \<open>s\<close>, the one it was created on,
  and its untried moves together with the moves of its children are, as a multiset, the
  legal moves of \<open>s\<close>; so it has at most as many children as \<open>s\<close> has legal moves, and
  when the legal moves of \<open>s\<close> are pairwise different no move occurs twice among the
  untried moves and the children's moves.
\<close>

theorem tree_moves_partition:
  assumes "UCT_loop pick_plain pol rnd lib rootstate k (root_heap lib h rootstate) = Some (Inr (u, h'))"
    and "rootstate < length (boards h)"
    and "i < length (nodes h')"
  shows "\<exists>s. node_state lib (boards h ! rootstate) (nodes h') i s
           \<and> (\<forall>s'. node_state lib (boards h ! rootstate) (nodes h') i s' \<longrightarrow> s' = s)
           \<and> mset (map Some (untriedMoves (nodes h' ! i)))
               + mset (map (\<lambda>c. move (nodes h' ! c)) (childNodes (nodes h' ! i)))
             = mset (map Some (legal_moves lib s))
           \<and> length (childNodes (nodes h' ! i)) \<le> length (legal_moves lib s)
           \<and> (distinct (legal_moves lib s) \<longrightarrow>
                distinct (map Some (untriedMoves (nodes h' ! i))
                          @ map (\<lambda>c. move (nodes h' ! c)) (childNodes (nodes h' ! i))))"
proof -
  from UCT_search_spec(1) [OF assms(1,2)]
  have po: "parents_ok (nodes h')" and mv: "moves_ok lib (boards h ! rootstate) (nodes h')"
    by (simp_all add: tree_inv_def)
  from mv assms(3) obtain s where s: "node_state lib (boards h ! rootstate) (nodes h') i s"
    and eq: "mset (map Some (untriedMoves (nodes h' ! i)))
               + mset (map (\<lambda>c. move (nodes h' ! c)) (childNodes (nodes h' ! i)))
             = mset (map Some (legal_moves lib s))"
    unfolding moves_ok_def by blast
  have un: "\<forall>s'. node_state lib (boards h ! rootstate) (nodes h') i s' \<longrightarrow> s' = s"
    using node_state_unique [OF po s] by blast
  from eq have "size (mset (map Some (untriedMoves (nodes h' ! i)))
               + mset (map (\<lambda>c. move (nodes h' ! c)) (childNodes (nodes h' ! i))))
             = size (mset (map Some (legal_moves lib s)))" by simp
  then have len: "length (childNodes (nodes h' ! i)) \<le> length (legal_moves lib s)" by simp
  have eq': "mset (map Some (untriedMoves (nodes h' ! i))
                   @ map (\<lambda>c. move (nodes h' ! c)) (childNodes (nodes h' ! i)))
             = mset (map Some (legal_moves lib s))"
    using eq by simp
  have di: "distinct (map Some (untriedMoves (nodes h' ! i))
                          @ map (\<lambda>c. move (nodes h' ! c)) (childNodes (nodes h' ! i)))"
    if "distinct (legal_moves lib s)"
  proof -
    from that have "distinct (map Some (legal_moves lib s))" by (simp add: distinct_map)
    with mset_eq_imp_distinct_iff [OF eq'] show ?thesis by simp
  qed
  from s un eq len di show ?thesis by blast
qed

theorem tree_moves_partition_witness:
  "UCT_loop pick_plain rollout_policy (\<lambda>k. k) two_moves 0 3 (root_heap two_moves heap0 0)
     = Some (Inr ((), final3))
   \<and> 0 < length (boards heap0)
   \<and> 0 < length (nodes final3)
   \<and> (\<exists>s. node_state two_moves (boards heap0 ! 0) (nodes final3) 0 s
           \<and> (\<forall>s'. node_state two_moves (boards heap0 ! 0) (nodes final3) 0 s' \<longrightarrow> s' = s)
           \<and> mset (map Some (untriedMoves (nodes final3 ! 0)))
               + mset (map (\<lambda>c. move (nodes final3 ! c)) (childNodes (nodes final3 ! 0)))
             = mset (map Some (legal_moves two_moves s))
           \<and> length (childNodes (nodes final3 ! 0)) \<le> length (legal_moves two_moves s)
           \<and> (distinct (legal_moves two_moves s) \<longrightarrow>
                distinct (map Some (untriedMoves (nodes final3 ! 0))
                          @ map (\<lambda>c. move (nodes final3 ! c)) (childNodes (nodes final3 ! 0)))))"
proof -
  have a: "0 < length (boards heap0)" "0 < length (nodes final3)"
    by (simp_all add: heap0_def final3_def)
  from tree_moves_partition [OF two_moves_loop a] two_moves_loop a show ?thesis by blast
qed

text \<open>
  C8. After any number \<open>k\<close> of iterations of a search, every node with \<open>visits \<ge> 1\<close> has
  \<open>wins / visits\<close> in \<open>[-1, 1]\<close>; and every \<^verbatim>\<open>Update\<close> changes \<open>wins\<close> by one of
  \<open>-1, 0, 1/2, 1\<close> and adds 1 to \<open>visits\<close>.
\<close>

theorem score_ratio_bounded:
  assumes "UCT_loop pick_plain pol rnd lib rootstate k (root_heap lib h rootstate) = Some (Inr (u, h'))"
    and "rootstate < length (boards h)"
    and "i < length (nodes h')"
    and "1 \<le> visits (nodes h' ! i)"
  shows "- 1 \<le> wins (nodes h' ! i) / real (visits (nodes h' ! i))
       \<and> wins (nodes h' ! i) / real (visits (nodes h' ! i)) \<le> 1
       \<and> (\<forall>n r. wins (Update (n :: 'm Node) r) - wins n \<in> {- 1, 0, 1 / 2, 1}
                 \<and> visits (Update n r) = visits n + 1)"
proof -
  from UCT_search_spec(1) [OF assms(1,2)] assms(3)
  have b: "\<bar>wins (nodes h' ! i)\<bar> \<le> real (visits (nodes h' ! i))"
    by (simp add: tree_inv_def score_ok_def)
  have p: "0 < real (visits (nodes h' ! i))" using assms(4) by simp
  from b have "- real (visits (nodes h' ! i)) \<le> wins (nodes h' ! i)"
    and "wins (nodes h' ! i) \<le> real (visits (nodes h' ! i))" by (simp_all add: abs_le_iff)
  with p have "- 1 \<le> wins (nodes h' ! i) / real (visits (nodes h' ! i))"
    and "wins (nodes h' ! i) / real (visits (nodes h' ! i)) \<le> 1"
    by (simp_all add: pos_le_divide_eq pos_divide_le_eq)
  moreover have "\<forall>n r. wins (Update (n :: 'm Node) r) - wins n \<in> {- 1, 0, 1 / 2, 1}
                 \<and> visits (Update n r) = visits n + 1"
    using Update_wins Update_visits by blast
  ultimately show ?thesis by blast
qed

theorem score_ratio_bounded_witness:
  "UCT_loop pick_plain rollout_policy (\<lambda>k. k) two_moves 0 3 (root_heap two_moves heap0 0)
     = Some (Inr ((), final3))
   \<and> 0 < length (boards heap0)
   \<and> 2 < length (nodes final3)
   \<and> 1 \<le> visits (nodes final3 ! 2)
   \<and> wins (nodes final3 ! 2) / real (visits (nodes final3 ! 2)) = - 1
   \<and> - 1 \<le> wins (nodes final3 ! 2) / real (visits (nodes final3 ! 2))
   \<and> wins (nodes final3 ! 2) / real (visits (nodes final3 ! 2)) \<le> 1"
proof -
  have a: "0 < length (boards heap0)" "2 < length (nodes final3)" "1 \<le> visits (nodes final3 ! 2)"
    by (simp_all add: heap0_def final3_def)
  have v: "wins (nodes final3 ! 2) / real (visits (nodes final3 ! 2)) = - 1"
    by (simp add: final3_def)
  from score_ratio_bounded [OF two_moves_loop a] two_moves_loop a v show ?thesis by blast
qed

text \<open>
  C9. On a node with untried moves \<^verbatim>\<open>quantum_selection\<close> is \<^verbatim>\<open>random.choice\<close> on the untried
  moves; the expansion step of the second engine is the expansion step of the first,
  whatever routine stands in the \<^verbatim>\<open>else\<close> branch; and the second engine's \<^verbatim>\<open>UCT\<close> computes
  the same with any routine \<open>grover\<close> in place of \<^verbatim>\<open>grover_search\<close>, which is therefore
  never called, and the same as the search with the plain pick (and the second engine's
  rollout policy).
\<close>

lemma iteration_quantum: "iteration (quantum_selection grover) = iteration pick_plain"
  unfolding iteration_def expand_quantum by (rule refl)

lemma UCT_loop_quantum:
  "UCT_loop (quantum_selection grover) pol rnd lib rootstate k h = UCT_loop pick_plain pol rnd lib rootstate k h"
  by (induction k arbitrary: h) (auto simp: iteration_quantum split: option.splits sum.splits)

lemma UCT_gen_quantum:
  "UCT_gen (quantum_selection grover) pol rnd lib h rootstate n = UCT_gen pick_plain pol rnd lib h rootstate n"
  by (simp add: UCT_gen_def UCT_loop_quantum)

theorem quantum_expansion_is_uniform:
  "(untriedMoves (nodes h ! node) \<noteq> []
      \<longrightarrow> quantum_selection grover rnd h node = random_choice rnd h (untriedMoves (nodes h ! node)))
   \<and> expand (quantum_selection grover) rnd lib h node st = expand pick_plain rnd lib h node st
   \<and> UCT_gen (quantum_selection grover) rollout_policy_q rnd lib h0 rootstate n = UCT_q rnd lib h0 rootstate n
   \<and> UCT_q rnd lib h0 rootstate n = UCT_gen pick_plain rollout_policy_q rnd lib h0 rootstate n"
proof -
  have sel: "untriedMoves (nodes h ! node) \<noteq> []
      \<longrightarrow> quantum_selection grover rnd h node = random_choice rnd h (untriedMoves (nodes h ! node))"
    by (simp add: quantum_selection_def)
  have ex: "expand (quantum_selection grover) rnd lib h node st = expand pick_plain rnd lib h node st"
    by (simp only: expand_quantum)
  have any: "UCT_gen (quantum_selection grover) rollout_policy_q rnd lib h0 rootstate n
      = UCT_gen pick_plain rollout_policy_q rnd lib h0 rootstate n"
    by (rule UCT_gen_quantum)
  have own: "UCT_q rnd lib h0 rootstate n = UCT_gen pick_plain rollout_policy_q rnd lib h0 rootstate n"
    unfolding UCT_q_def by (rule UCT_gen_quantum)
  from sel ex any own show ?thesis by simp
qed

theorem quantum_expansion_is_uniform_witness:
  "untriedMoves (nodes (root_heap two_moves heap0 0) ! 0) \<noteq> []
   \<and> quantum_selection grover_search (\<lambda>k. k) (root_heap two_moves heap0 0) 0
       = random_choice (\<lambda>k. k) (root_heap two_moves heap0 0) (untriedMoves (nodes (root_heap two_moves heap0 0) ! 0))
   \<and> quantum_selection grover_search (\<lambda>k. k) (root_heap two_moves heap0 0) 0
       = Inr (7, (root_heap two_moves heap0 0)\<lparr>draws := 1\<rparr>)
   \<and> UCT_q (\<lambda>k. k) two_moves heap0 0 3 = UCT_gen pick_plain rollout_policy_q (\<lambda>k. k) two_moves heap0 0 3
   \<and> UCT_q (\<lambda>k. k) two_moves heap0 0 3 = Some (Inr (Some 7, final3))"
proof -
  have a: "untriedMoves (nodes (root_heap two_moves heap0 0) ! 0) \<noteq> []"
    by (simp add: root_heap_def heap0_def Node_init_def toy_simps)
  have v: "random_choice (\<lambda>k. k) (root_heap two_moves heap0 0) (untriedMoves (nodes (root_heap two_moves heap0 0) ! 0))
      = Inr (7, (root_heap two_moves heap0 0)\<lparr>draws := 1\<rparr>)"
    by (simp add: random_choice_def root_heap_def heap0_def Node_init_def toy_simps)
  from quantum_expansion_is_uniform [where h = "root_heap two_moves heap0 0" and node = 0
      and grover = grover_search and rnd = "\<lambda>k. k" and lib = two_moves and st = 0
      and ?h0.0 = heap0 and rootstate = 0 and n = 3] a v two_moves_UCT_q
  show ?thesis by simp
qed

text \<open>
  C10. However \<^verbatim>\<open>UCT(rootstate, itermax)\<close> ends, with a move or with an exception, the
  board object \<open>rootstate\<close> is what it was before the call, and so is every other board
  that existed before the call: the pushes go to the copies that the iterations allocate.
\<close>

theorem UCT_keeps_rootstate:
  assumes "UCT rnd lib h rootstate n = Some y"
    and "rootstate < length (boards h)"
  shows "boards (final_heap y) ! rootstate = boards h ! rootstate
       \<and> take (length (boards h)) (boards (final_heap y)) = boards h"
proof -
  from assms(1) obtain y1 where
    l: "UCT_loop pick_plain rollout_policy rnd lib rootstate n (root_heap lib h rootstate) = Some y1"
    and f: "final_heap y = final_heap y1"
    by (auto simp: UCT_def UCT_gen_def split: option.splits sum.splits)
  from UCT_loop_kept [OF l] f have t: "take (length (boards h)) (boards (final_heap y)) = boards h"
    by (simp add: root_heap_fields)
  have "boards (final_heap y) ! rootstate = take (length (boards h)) (boards (final_heap y)) ! rootstate"
    using assms(2) by simp
  with t show ?thesis by simp
qed

theorem UCT_keeps_rootstate_witness:
  "UCT (\<lambda>k. k) two_moves heap0 0 3 = Some (Inr (Some 7, final3))
   \<and> 0 < length (boards heap0)
   \<and> boards final3 = [0, 7, 9, 7]
   \<and> boards (final_heap (Inr (Some (7::nat), final3))) ! 0 = boards heap0 ! 0
   \<and> take (length (boards heap0)) (boards (final_heap (Inr (Some (7::nat), final3)))) = boards heap0"
proof -
  have a: "0 < length (boards heap0)" by (simp add: heap0_def)
  have b: "boards final3 = [0, 7, 9, 7]" by (simp add: final3_def)
  from UCT_keeps_rootstate [OF two_moves_UCT a] two_moves_UCT a b show ?thesis by blast
qed

end
